theory Spec2Isabelle
  imports Complex_Main
begin

section \<open>The Kaleidoscope front end of \<^verbatim>\<open>lang.cpp\<close>\<close>

text \<open>
  A shallow embedding of the lexer (\<^verbatim>\<open>gettok\<close>) and of the recursive-descent and
  operator-precedence parser of \<^verbatim>\<open>lang.cpp\<close>. The C++ file keeps its state in static
  variables and reads standard input with \<^verbatim>\<open>getchar\<close>; here the statics are the fields
  of one record that every function takes and returns, and standard input is the list of
  characters that have not been read yet.
\<close>

subsection \<open>Characters and the C library\<close>

text \<open>
  \<^verbatim>\<open>getchar\<close> returns the next byte as an \<^verbatim>\<open>int\<close> in 0..255, or \<^verbatim>\<open>EOF\<close> (-1) when the
  input is exhausted; it keeps returning \<^verbatim>\<open>EOF\<close> from then on.
\<close>

definition EOF :: int where
  "EOF = - 1"

fun getchar :: "string \<Rightarrow> int \<times> string" where
  "getchar [] = (EOF, [])"
| "getchar (c # cs) = (of_char c, cs)"

text \<open>
  The classification functions of \<^verbatim>\<open><cctype>\<close>, in the "C" locale, on the \<^verbatim>\<open>int\<close> that
  \<^verbatim>\<open>getchar\<close> returned. All of them are false at \<^verbatim>\<open>EOF\<close>.
\<close>

definition isspace :: "int \<Rightarrow> bool" where
  "isspace c = (c = 32 \<or> (9 \<le> c \<and> c \<le> 13))"

definition isdigit :: "int \<Rightarrow> bool" where
  "isdigit c = (48 \<le> c \<and> c \<le> 57)"

definition isalpha :: "int \<Rightarrow> bool" where
  "isalpha c = ((65 \<le> c \<and> c \<le> 90) \<or> (97 \<le> c \<and> c \<le> 122))"

definition isalnum :: "int \<Rightarrow> bool" where
  "isalnum c = (isalpha c \<or> isdigit c)"

definition isascii :: "int \<Rightarrow> bool" where
  "isascii c = (0 \<le> c \<and> c \<le> 127)"

text \<open>
  \<^verbatim>\<open>strtod\<close> is only ever called on the text that the number loop of \<^verbatim>\<open>gettok\<close>
  collected: digits and dots. On such a text it converts the longest prefix of the form
  digits, optional dot, digits that holds at least one digit, and returns 0 when there is
  none (as for \<^verbatim>\<open>"."\<close>). The model keeps the exact value of that decimal numeral; the
  rounding of \<^verbatim>\<open>strtod\<close> to the nearest \<^verbatim>\<open>double\<close> is not modelled (the numerals 1, 2, 3
  used below are doubles).
\<close>

definition digit_char :: "char \<Rightarrow> bool" where
  "digit_char ch = isdigit (of_char ch)"

fun decimal_value :: "nat \<Rightarrow> string \<Rightarrow> nat" where
  "decimal_value acc [] = acc"
| "decimal_value acc (ch # cs) = decimal_value (10 * acc + (of_char ch - 48)) cs"

definition strtod :: "string \<Rightarrow> real" where
  "strtod str =
     (let whole = takeWhile digit_char str;
          after = dropWhile digit_char str;
          frac = (case after of [] \<Rightarrow> []
                  | ch # cs \<Rightarrow> if ch = CHR ''.'' then takeWhile digit_char cs else [])
      in if whole = [] \<and> frac = [] then 0
         else real (decimal_value 0 (whole @ frac)) / 10 ^ length frac)"

subsection \<open>Tokens and the static variables\<close>

text \<open>
  \<^verbatim>\<open>enum Token\<close>: the lexer returns one of these negative numbers, or the character
  code (0..255) of an unknown character.
\<close>

definition tok_eof :: int where "tok_eof = - 1"
definition tok_def :: int where "tok_def = - 2"
definition tok_extern :: int where "tok_extern = - 3"
definition tok_identifier :: int where "tok_identifier = - 4"
definition tok_number :: int where "tok_number = - 5"

datatype ExprAST =
    NumberExprAST real
  | VariableExprAST string
  | BinaryExprAST char ExprAST ExprAST
  | CallExprAST string "ExprAST list"

text \<open>
  The static variables of the file, with standard input (\<open>Input\<close>: the characters not read
  yet) and standard error (\<open>Stderr\<close>: the messages \<^verbatim>\<open>LogError\<close> printed, oldest first).
  \<open>BinopPrecedence\<close> is the \<^verbatim>\<open>std::map<char, int>\<close>.
\<close>

record state =
  Input :: string
  Stderr :: "string list"
  LastChar :: int
  IdentifierStr :: string
  NumVal :: real
  CurTok :: int
  BinopPrecedence :: "char \<rightharpoonup> int"

subsection \<open>The lexer\<close>

text \<open>\<^verbatim>\<open>while (isspace(LastChar)) LastChar = getchar();\<close>\<close>

function skip_whitespace :: "int \<Rightarrow> string \<Rightarrow> int \<times> string" where
  "skip_whitespace c inp =
     (if isspace c then (case getchar inp of (c', inp') \<Rightarrow> skip_whitespace c' inp')
      else (c, inp))"
  by pat_completeness auto
termination
  apply (relation "measure (\<lambda>(c, inp). 2 * length inp + (if isspace c then 1 else 0))")
   apply simp
  subgoal for c inp
    by (cases inp) (auto simp: isspace_def EOF_def)
  done

text \<open>\<^verbatim>\<open>while (isalnum(LastChar = getchar())) IdentifierStr += LastChar;\<close>\<close>

function read_identifier :: "string \<Rightarrow> string \<Rightarrow> int \<times> string \<times> string" where
  "read_identifier idstr inp =
     (case getchar inp of (c, inp') \<Rightarrow>
        if isalnum c then read_identifier (idstr @ [char_of c]) inp'
        else (c, idstr, inp'))"
  by pat_completeness auto
termination
  apply (relation "measure (\<lambda>(idstr, inp). length inp)")
   apply simp
  subgoal for idstr inp
    by (cases inp) (auto simp: isalnum_def isalpha_def isdigit_def EOF_def)
  done

text \<open>
  \<^verbatim>\<open>do { NumStr += LastChar; LastChar = getchar(); }
  while (isdigit(LastChar) || LastChar == '.');\<close>
\<close>

function read_number :: "string \<Rightarrow> int \<Rightarrow> string \<Rightarrow> int \<times> string \<times> string" where
  "read_number numstr c inp =
     (case getchar inp of (c', inp') \<Rightarrow>
        if isdigit c' \<or> c' = of_char CHR ''.''
        then read_number (numstr @ [char_of c]) c' inp'
        else (c', numstr @ [char_of c], inp'))"
  by pat_completeness auto
termination
  apply (relation "measure (\<lambda>(numstr, c, inp). length inp)")
   apply simp
  subgoal for numstr c inp
    by (cases inp) (auto simp: isdigit_def EOF_def)
  done

text \<open>
  \<^verbatim>\<open>do LastChar = getchar();
  while (LastChar != EOF && LastChar != '\n' && LastChar != '\r');\<close>
\<close>

function skip_comment :: "string \<Rightarrow> int \<times> string" where
  "skip_comment inp =
     (case getchar inp of (c, inp') \<Rightarrow>
        if c \<noteq> EOF \<and> c \<noteq> 10 \<and> c \<noteq> 13 then skip_comment inp' else (c, inp'))"
  by pat_completeness auto
termination
  apply (relation "measure length")
   apply simp
  subgoal for inp
    by (cases inp) auto
  done

text \<open>
  \<^verbatim>\<open>gettok\<close>: the next token from standard input. The identifier branch appends to
  \<open>IdentifierStr\<close> as the source does: the variable is not assigned before the loop, and the
  loop reads the next character before it appends. After a comment that ends at a line
  end the function calls itself; after one that ends at the end of the input it falls
  through to the test \<^verbatim>\<open>LastChar == EOF\<close>.
\<close>

function gettok :: "state \<Rightarrow> int \<times> state" where
  "gettok s =
     (case skip_whitespace (LastChar s) (Input s) of (c, inp) \<Rightarrow>
      if isalpha c then
        (case read_identifier (IdentifierStr s) inp of (c', idstr, inp') \<Rightarrow>
           (if idstr = ''def'' then tok_def
            else if idstr = ''extern'' then tok_extern
            else tok_identifier,
            s\<lparr>LastChar := c', IdentifierStr := idstr, Input := inp'\<rparr>))
      else if isdigit c \<or> c = of_char CHR ''.'' then
        (case read_number [] c inp of (c', NumStr, inp') \<Rightarrow>
           (tok_number, s\<lparr>LastChar := c', NumVal := strtod NumStr, Input := inp'\<rparr>))
      else if c = of_char CHR ''#'' then
        (case skip_comment inp of (c', inp') \<Rightarrow>
           if c' \<noteq> EOF then gettok (s\<lparr>LastChar := c', Input := inp'\<rparr>)
           else (tok_eof, s\<lparr>LastChar := c', Input := inp'\<rparr>))
      else if c = EOF then (tok_eof, s\<lparr>LastChar := c, Input := inp\<rparr>)
      else (case getchar inp of (c', inp') \<Rightarrow> (c, s\<lparr>LastChar := c', Input := inp'\<rparr>)))"
  by pat_completeness auto
termination
proof -
  have ws: "length (snd (skip_whitespace c inp)) \<le> length inp" for c inp
  proof (induction c inp rule: skip_whitespace.induct)
    case (1 c inp)
    then show ?case
      by (cases inp) (auto simp: EOF_def isspace_def)
  qed
  have sc: "fst (skip_comment inp) \<noteq> EOF \<Longrightarrow> length (snd (skip_comment inp)) < length inp"
    for inp
  proof (induction inp rule: skip_comment.induct)
    case (1 inp)
    then show ?case
      by (cases inp) (auto simp: less_Suc_eq split: if_splits)
  qed
  show ?thesis
  proof (relation "measure (\<lambda>s. length (Input s))")
    show "wf (measure (\<lambda>s. length (Input s)))"
      by simp
  next
    fix s :: state and c inp c' inp'
    assume "(c, inp) = skip_whitespace (LastChar s) (Input s)"
      and "(c', inp') = skip_comment inp" and "c' \<noteq> EOF"
    then have w: "skip_whitespace (LastChar s) (Input s) = (c, inp)"
      and k: "skip_comment inp = (c', inp')" and e: "fst (skip_comment inp) \<noteq> EOF"
      by (metis, metis, metis fst_conv)
    have "length inp' < length inp"
      using sc [OF e] unfolding k by simp
    moreover have "length inp \<le> length (Input s)"
      using ws [of "LastChar s" "Input s"] unfolding w by simp
    ultimately show "(s\<lparr>LastChar := c', Input := inp'\<rparr>, s) \<in> measure (\<lambda>s. length (Input s))"
      by simp
  qed
qed

declare skip_whitespace.simps [simp del] read_identifier.simps [simp del]
  read_number.simps [simp del] skip_comment.simps [simp del] gettok.simps [simp del]

text \<open>
  The lexer always holds one character of look-ahead in \<open>LastChar\<close>. For the properties
  below, \<open>unread txt s\<close> is the state \<open>s\<close> with the text \<open>txt\<close> in front of the lexer: the
  first character of \<open>txt\<close> is the look-ahead, as if \<^verbatim>\<open>getchar\<close> had just returned it, and the
  others are still on standard input; with the empty text the look-ahead is \<^verbatim>\<open>EOF\<close>. The
  program starts in the state \<open>unread (CHR '' '' # inp) s\<close>. The character classes are those
  that the tests of \<open>gettok\<close> distinguish.
\<close>

definition unread :: "string \<Rightarrow> state \<Rightarrow> state" where
  "unread txt s = (case getchar txt of (c, inp) \<Rightarrow> s\<lparr>LastChar := c, Input := inp\<rparr>)"

definition space_char :: "char \<Rightarrow> bool" where
  "space_char ch = isspace (of_char ch)"

definition alpha_char :: "char \<Rightarrow> bool" where
  "alpha_char ch = isalpha (of_char ch)"

definition alnum_char :: "char \<Rightarrow> bool" where
  "alnum_char ch = isalnum (of_char ch)"

definition number_char :: "char \<Rightarrow> bool" where
  "number_char ch = (isdigit (of_char ch) \<or> ch = CHR ''.'')"

definition line_end_char :: "char \<Rightarrow> bool" where
  "line_end_char ch = (ch = CHR 0x0A \<or> ch = CHR 0x0D)"

text \<open>
  For the properties of comments: \<open>tokens n s\<close> is what the next \<open>n\<close> calls of \<open>gettok\<close>
  return from the state \<open>s\<close>, each token with the identifier text and the number value
  that the parser would read with it (after the end of the input every call returns
  \<open>tok_eof\<close>). \<open>lex_steps k s\<close> is the state after \<open>k\<close> calls, and \<open>unread_is txt s\<close> says that
  the text in front of the lexer in the state \<open>s\<close> is \<open>txt\<close>. \<open>same_lexing s t\<close> relates two
  states that the parser cannot tell apart: they agree on everything but the look-ahead
  character and the input, and the lexer returns the same tokens from both.
\<close>

fun tokens :: "nat \<Rightarrow> state \<Rightarrow> (int \<times> string \<times> real) list" where
  "tokens 0 s = []"
| "tokens (Suc n) s =
     (case gettok s of (tok, s') \<Rightarrow> (tok, IdentifierStr s', NumVal s') # tokens n s')"

fun lex_steps :: "nat \<Rightarrow> state \<Rightarrow> state" where
  "lex_steps 0 s = s"
| "lex_steps (Suc k) s = lex_steps k (snd (gettok s))"

definition unread_is :: "string \<Rightarrow> state \<Rightarrow> bool" where
  "unread_is txt s = (getchar txt = (LastChar s, Input s))"

definition same_lexing :: "state \<Rightarrow> state \<Rightarrow> bool" where
  "same_lexing s t =
     (Stderr s = Stderr t \<and> IdentifierStr s = IdentifierStr t \<and> NumVal s = NumVal t \<and>
      CurTok s = CurTok t \<and> BinopPrecedence s = BinopPrecedence t \<and>
      (\<forall>n. tokens n s = tokens n t))"

text \<open>
  \<open>same_result x y\<close> relates two results of a parse function: both ran out of fuel, or
  both returned, with the same tree or the same null pointer, in states that the parser
  cannot tell apart.
\<close>

definition same_result :: "('a \<times> state) option \<Rightarrow> ('a \<times> state) option \<Rightarrow> bool" where
  "same_result x y =
     (case x of
        None \<Rightarrow> y = None
      | Some (r, s) \<Rightarrow> (case y of None \<Rightarrow> False | Some (r', t) \<Rightarrow> r = r' \<and> same_lexing s t))"

subsection \<open>The parser\<close>

text \<open>\<^verbatim>\<open>static int getNextToken() { return CurTok = gettok(); }\<close>\<close>

definition getNextToken :: "state \<Rightarrow> state" where
  "getNextToken s = (case gettok s of (tok, s') \<Rightarrow> s'\<lparr>CurTok := tok\<rparr>)"

text \<open>
  \<^verbatim>\<open>LogError\<close> prints the message to standard error and returns the null pointer: the
  result \<open>None\<close>. \<^verbatim>\<open>LogErrorP\<close> has no caller in the file.
\<close>

definition LogError :: "string \<Rightarrow> state \<Rightarrow> ExprAST option \<times> state" where
  "LogError Str s = (None, s\<lparr>Stderr := Stderr s @ [''Error: '' @ Str @ [CHR 0x0A]]\<rparr>)"

definition Expected_rparen :: string where
  "Expected_rparen = ''Expected '' @ [CHR 0x27, CHR '')'', CHR 0x27]"

definition Expected_rparen_or_comma :: string where
  "Expected_rparen_or_comma =
     ''Expected '' @ [CHR 0x27, CHR '')'', CHR 0x27] @ '' or '' @ [CHR 0x27, CHR '','', CHR 0x27]
       @ '' in argument list''"

definition Unknown_token :: string where
  "Unknown_token = ''Unknown Token! Expected an expression''"

definition ParseNumberExpr :: "state \<Rightarrow> ExprAST option \<times> state" where
  "ParseNumberExpr s = (let Result = NumberExprAST (NumVal s) in (Some Result, getNextToken s))"

text \<open>
  \<^verbatim>\<open>GetTokPrecedence\<close>. \<^verbatim>\<open>BinopPrecedence[CurTok]\<close> is \<^verbatim>\<open>operator[]\<close> of \<^verbatim>\<open>std::map\<close>: when the
  key is absent it inserts the key with the value 0 and returns that 0.
\<close>

definition GetTokPrecedence :: "state \<Rightarrow> int \<times> state" where
  "GetTokPrecedence s =
     (if \<not> isascii (CurTok s) then (- 1, s)
      else
        let key = char_of (CurTok s);
            s1 = (case BinopPrecedence s key of
                    None \<Rightarrow> s\<lparr>BinopPrecedence := (BinopPrecedence s)(key \<mapsto> 0)\<rparr>
                  | Some v \<Rightarrow> s);
            TokPrec = (case BinopPrecedence s1 key of None \<Rightarrow> 0 | Some v \<Rightarrow> v)
        in if TokPrec \<le> 0 then (- 1, s1) else (TokPrec, s1))"

text \<open>
  The parse functions call each other recursively and loop on the input, so the model
  gives them fuel: one unit for every call and every loop iteration in progress. The
  outer \<open>None\<close> means that the fuel ran out; \<open>Some (None, s)\<close> is the null pointer
  that the C++ functions return on a syntax error, and \<open>Some (Some e, s)\<close> the tree.
  \<open>ParseArgs\<close> is the \<^verbatim>\<open>while (true)\<close> loop of \<^verbatim>\<open>ParseIdentifierExpr\<close>, and the second
  equation of \<open>ParseBinOpRHS\<close> is one iteration of its \<^verbatim>\<open>while (true)\<close> loop. In that
  loop the body of \<^verbatim>\<open>if (TokPrec < NextPrec)\<close> is empty in the source (the comment there
  says \<^verbatim>\<open>Unfinished\<close>), so only the lookup of \<open>NextPrec\<close> has an effect.
\<close>

fun ParsePrimary :: "nat \<Rightarrow> state \<Rightarrow> (ExprAST option \<times> state) option"
  and ParseParenExpr :: "nat \<Rightarrow> state \<Rightarrow> (ExprAST option \<times> state) option"
  and ParseIdentifierExpr :: "nat \<Rightarrow> state \<Rightarrow> (ExprAST option \<times> state) option"
  and ParseArgs :: "nat \<Rightarrow> ExprAST list \<Rightarrow> state \<Rightarrow> (ExprAST list option \<times> state) option"
  and ParseExpression :: "nat \<Rightarrow> state \<Rightarrow> (ExprAST option \<times> state) option"
  and ParseBinOpRHS :: "nat \<Rightarrow> int \<Rightarrow> ExprAST \<Rightarrow> state \<Rightarrow> (ExprAST option \<times> state) option"
where
  "ParsePrimary 0 s = None"
| "ParsePrimary (Suc n) s =
     (if CurTok s = tok_identifier then ParseIdentifierExpr n s
      else if CurTok s = tok_number then Some (ParseNumberExpr s)
      else if CurTok s = of_char CHR ''('' then ParseParenExpr n s
      else Some (LogError Unknown_token s))"
| "ParseParenExpr 0 s = None"
| "ParseParenExpr (Suc n) s =
     (case ParseExpression n (getNextToken s) of
        None \<Rightarrow> None
      | Some (None, s1) \<Rightarrow> Some (None, s1)
      | Some (Some V, s1) \<Rightarrow>
          if CurTok s1 \<noteq> of_char CHR '')'' then Some (LogError Expected_rparen s1)
          else Some (Some V, getNextToken s1))"
| "ParseIdentifierExpr 0 s = None"
| "ParseIdentifierExpr (Suc n) s =
     (let IdName = IdentifierStr s;
          s1 = getNextToken s
      in if CurTok s1 \<noteq> of_char CHR ''('' then Some (Some (VariableExprAST IdName), s1)
         else
           let s2 = getNextToken s1
           in if CurTok s2 \<noteq> of_char CHR '')'' then
                (case ParseArgs n [] s2 of
                   None \<Rightarrow> None
                 | Some (None, s3) \<Rightarrow> Some (None, s3)
                 | Some (Some Args, s3) \<Rightarrow>
                     Some (Some (CallExprAST IdName Args), getNextToken s3))
              else Some (Some (CallExprAST IdName []), getNextToken s2))"
| "ParseArgs 0 Args s = None"
| "ParseArgs (Suc n) Args s =
     (case ParseExpression n s of
        None \<Rightarrow> None
      | Some (None, s1) \<Rightarrow> Some (None, s1)
      | Some (Some Arg1, s1) \<Rightarrow>
          if CurTok s1 = of_char CHR '')'' then Some (Some (Args @ [Arg1]), s1)
          else if CurTok s1 \<noteq> of_char CHR '','' then
            Some (None, snd (LogError Expected_rparen_or_comma s1))
          else ParseArgs n (Args @ [Arg1]) (getNextToken s1))"
| "ParseExpression 0 s = None"
| "ParseExpression (Suc n) s =
     (case ParsePrimary n s of
        None \<Rightarrow> None
      | Some (None, s1) \<Rightarrow> Some (None, s1)
      | Some (Some LHS, s1) \<Rightarrow> ParseBinOpRHS n 0 LHS s1)"
| "ParseBinOpRHS 0 ExprPrec LHS s = None"
| "ParseBinOpRHS (Suc n) ExprPrec LHS s =
     (case GetTokPrecedence s of (TokPrec, s1) \<Rightarrow>
        if TokPrec < ExprPrec then Some (Some LHS, s1)
        else
          (let BinOp = CurTok s1
           in (case ParsePrimary n (getNextToken s1) of
                 None \<Rightarrow> None
               | Some (None, s2) \<Rightarrow> Some (None, s2)
               | Some (Some RHS, s2) \<Rightarrow>
                   (case GetTokPrecedence s2 of (NextPrec, s3) \<Rightarrow>
                      ParseBinOpRHS n ExprPrec (BinaryExprAST (char_of BinOp) LHS RHS) s3))))"

text \<open>
  \<^verbatim>\<open>main\<close> fills the precedence table. \<open>start\<close> is the state of the statics when the
  program starts, with the given standard input: \<^verbatim>\<open>LastChar\<close> is initialised to a space,
  the other statics are zero-initialised or empty.
\<close>

definition main :: "state \<Rightarrow> state" where
  "main s =
     s\<lparr>BinopPrecedence := (BinopPrecedence s)
          (CHR ''<'' \<mapsto> 10, CHR ''+'' \<mapsto> 20, CHR ''-'' \<mapsto> 30, CHR ''*'' \<mapsto> 40)\<rparr>"

definition start :: "string \<Rightarrow> state" where
  "start inp =
     \<lparr>Input = inp, Stderr = [], LastChar = of_char CHR '' '', IdentifierStr = [], NumVal = 0,
      CurTok = 0, BinopPrecedence = Map.empty\<rparr>"

text \<open>
  The file has no driver. The parse functions expect \<open>CurTok\<close> to hold the first token of
  what they parse, so parsing a text as an expression is: fill the table, read the first
  token, call \<open>ParseExpression\<close>.
\<close>

definition parse_expression_of :: "nat \<Rightarrow> string \<Rightarrow> (ExprAST option \<times> state) option" where
  "parse_expression_of n inp = ParseExpression n (getNextToken (main (start inp)))"

text \<open>
  For the properties of the precedence table: \<open>lookup t key\<close> is the value that
  \<^verbatim>\<open>operator[]\<close> returns for \<open>key\<close> in the table \<open>t\<close> (0 for an absent key, which it then
  inserts). \<open>main_table t\<close> says that every lookup in \<open>t\<close> returns what it returns in the
  table that \<^verbatim>\<open>main\<close> fills. \<open>grows_by_zero t t'\<close> says that \<open>t'\<close> is \<open>t\<close> with, possibly,
  absent ASCII keys inserted with the value 0.
\<close>

definition lookup :: "(char \<rightharpoonup> int) \<Rightarrow> char \<Rightarrow> int" where
  "lookup t key = (case t key of None \<Rightarrow> 0 | Some v \<Rightarrow> v)"

definition main_table :: "(char \<rightharpoonup> int) \<Rightarrow> bool" where
  "main_table t = (\<forall>key. lookup t key = lookup (BinopPrecedence (main (start []))) key)"

definition grows_by_zero :: "(char \<rightharpoonup> int) \<Rightarrow> (char \<rightharpoonup> int) \<Rightarrow> bool" where
  "grows_by_zero t t' =
     (\<forall>key. t' key = t key \<or> (t key = None \<and> t' key = Some 0 \<and> isascii (of_char key)))"


text \<open>
  For the properties of operator chains: \<open>chain_text ops\<close> is the text of a chain of
  operator characters, each followed by its operand text. \<open>after_operand ops s\<close> is the
  state in which the parser has just read the token that follows an operand, with the
  chain \<open>ops\<close> still to come: that token (the first operator of the chain, or \<open>tok_eof\<close>
  for the empty chain) is current, and what follows it is in front of the lexer.
\<close>

fun chain_text :: "(char \<times> string) list \<Rightarrow> string" where
  "chain_text [] = []"
| "chain_text ((c, d) # ops) = c # d @ chain_text ops"

fun after_operand :: "(char \<times> string) list \<Rightarrow> state \<Rightarrow> state" where
  "after_operand [] s = (unread [] s)\<lparr>CurTok := tok_eof\<rparr>"
| "after_operand ((c, d) # ops) s = (unread (d @ chain_text ops) s)\<lparr>CurTok := of_char c\<rparr>"

text \<open>
  \<open>operator_char c\<close> says that \<open>c\<close> is one of the four operators that \<^verbatim>\<open>main\<close> installs.
  \<open>number_text d\<close> says that \<open>d\<close> is a nonempty run of digits and dots, the text of one
  number token. \<open>operator_chain ops\<close> says that \<open>ops\<close> is a chain of installed operators,
  each with the text of a number as its operand, and \<open>equal_precedence ops\<close> that all its
  operators have the same precedence in the table of \<^verbatim>\<open>main\<close>. \<open>left_nested LHS ops\<close> is the
  tree that combines \<open>LHS\<close> with the operands of the chain from left to right: the first
  operator is innermost, the last one is the root.
\<close>

definition operator_char :: "char \<Rightarrow> bool" where
  "operator_char c = (c = CHR ''<'' \<or> c = CHR ''+'' \<or> c = CHR ''-'' \<or> c = CHR ''*'')"

definition number_text :: "string \<Rightarrow> bool" where
  "number_text d = (d \<noteq> [] \<and> (\<forall>ch\<in>set d. number_char ch))"

definition operator_chain :: "(char \<times> string) list \<Rightarrow> bool" where
  "operator_chain ops = (\<forall>(c, d)\<in>set ops. operator_char c \<and> number_text d)"

definition equal_precedence :: "(char \<times> string) list \<Rightarrow> bool" where
  "equal_precedence ops =
     (\<forall>(c, d)\<in>set ops. \<forall>(c', d')\<in>set ops.
        lookup (BinopPrecedence (main (start []))) c =
        lookup (BinopPrecedence (main (start []))) c')"

fun left_nested :: "ExprAST \<Rightarrow> (char \<times> string) list \<Rightarrow> ExprAST" where
  "left_nested LHS [] = LHS"
| "left_nested LHS ((c, d) # ops) =
     left_nested (BinaryExprAST c LHS (NumberExprAST (strtod d))) ops"

section \<open>Properties\<close>

subsection \<open>Fuel\<close>

text \<open>
  A parse function that returns with some fuel returns the same result and the same state
  with any larger amount of fuel: the fuel only bounds the recursion, it never changes a
  result.
\<close>

lemma fuel_mono:
  shows "n \<le> m \<Longrightarrow> ParsePrimary n s = Some r \<Longrightarrow> ParsePrimary m s = Some r"
    and "n \<le> m \<Longrightarrow> ParseParenExpr n s = Some r \<Longrightarrow> ParseParenExpr m s = Some r"
    and "n \<le> m \<Longrightarrow> ParseIdentifierExpr n s = Some r \<Longrightarrow> ParseIdentifierExpr m s = Some r"
    and "n \<le> m \<Longrightarrow> ParseArgs n Args s = Some ra \<Longrightarrow> ParseArgs m Args s = Some ra"
    and "n \<le> m \<Longrightarrow> ParseExpression n s = Some r \<Longrightarrow> ParseExpression m s = Some r"
    and "n \<le> m \<Longrightarrow> ParseBinOpRHS n p L s = Some r \<Longrightarrow> ParseBinOpRHS m p L s = Some r"
proof (induction n arbitrary: m s r ra Args p L)
  case 0
  {
    case 1 then show ?case by simp
  next
    case 2 then show ?case by simp
  next
    case 3 then show ?case by simp
  next
    case 4 then show ?case by simp
  next
    case 5 then show ?case by simp
  next
    case 6 then show ?case by simp
  }
next
  case (Suc n)
  {
    case 1
    then obtain m' where m: "m = Suc m'" "n \<le> m'" by (cases m) auto
    from 1(2) show ?case unfolding m
      by (auto split: if_splits dest: Suc.IH(2,3) [OF m(2)])
  next
    case 2
    then obtain m' where m: "m = Suc m'" "n \<le> m'" by (cases m) auto
    from 2(2) show ?case unfolding m
      by (auto split: option.splits prod.splits if_splits dest: Suc.IH(5) [OF m(2)])
  next
    case 3
    then obtain m' where m: "m = Suc m'" "n \<le> m'" by (cases m) auto
    from 3(2) show ?case unfolding m
      by (auto simp: Let_def split: option.splits prod.splits if_splits dest: Suc.IH(4) [OF m(2)])
  next
    case 4
    then obtain m' where m: "m = Suc m'" "n \<le> m'" by (cases m) auto
    from 4(2) obtain x where x: "ParseExpression n s = Some x"
      by (auto split: option.splits)
    then have x': "ParseExpression m' s = Some x"
      by (rule Suc.IH(5) [OF m(2)])
    from 4(2) show ?case unfolding m
      by (auto simp: x x' split: option.splits prod.splits if_splits intro: Suc.IH(4) [OF m(2)])
  next
    case 5
    then obtain m' where m: "m = Suc m'" "n \<le> m'" by (cases m) auto
    from 5(2) obtain x where x: "ParsePrimary n s = Some x"
      by (auto split: option.splits)
    then have x': "ParsePrimary m' s = Some x"
      by (rule Suc.IH(1) [OF m(2)])
    from 5(2) show ?case unfolding m
      by (auto simp: x x' split: option.splits prod.splits if_splits intro: Suc.IH(6) [OF m(2)])
  next
    case 6
    then obtain m' where m: "m = Suc m'" "n \<le> m'" by (cases m) auto
    show ?case
    proof (cases "fst (GetTokPrecedence s) < p")
      case True
      with 6(2) show ?thesis unfolding m
        by (auto split: prod.splits)
    next
      case False
      with 6(2) obtain x where x: "ParsePrimary n (getNextToken (snd (GetTokPrecedence s))) = Some x"
        by (auto simp: Let_def split: option.splits prod.splits)
      then have x': "ParsePrimary m' (getNextToken (snd (GetTokPrecedence s))) = Some x"
        by (rule Suc.IH(1) [OF m(2)])
      from 6(2) False show ?thesis unfolding m using x x'
        by (auto simp: Let_def split: option.splits prod.splits if_splits
            intro: Suc.IH(6) [OF m(2)])
    qed
  }
qed

subsection \<open>The lexer, case by case\<close>

text \<open>
  Character codes, and what one call of \<open>gettok\<close> does with the text in front of it:
  white space is skipped, and a comment that ends at a line end is skipped with it.
\<close>

lemma of_char_range: "0 \<le> (of_char ch :: int) \<and> (of_char ch :: int) < 256"
proof -
  have "(of_char ch :: int) = int (of_char ch)"
    by (simp add: of_nat_of_char)
  moreover have "(of_char ch :: nat) < 256"
    by (rule nat_of_char_less_256)
  ultimately show ?thesis by simp
qed

lemma of_char_not_EOF [simp]: "of_char ch \<noteq> EOF"
  using of_char_range [of ch] by (simp add: EOF_def)

lemma of_char_eq_code:
  "((of_char ch :: int) = 10) = (ch = CHR 0x0A)"
  "((of_char ch :: int) = 13) = (ch = CHR 0x0D)"
  "((of_char ch :: int) = 35) = (ch = CHR ''#'')"
  "((of_char ch :: int) = 46) = (ch = CHR ''.'')"
  using of_char_eq_iff [of ch "CHR 0x0A", where ?'a = int]
    of_char_eq_iff [of ch "CHR 0x0D", where ?'a = int]
    of_char_eq_iff [of ch "CHR ''#''", where ?'a = int]
    of_char_eq_iff [of ch "CHR ''.''", where ?'a = int]
  by simp_all

lemma not_isspace_EOF [simp]: "\<not> isspace EOF"
  by (simp add: isspace_def EOF_def)

lemma skip_whitespace_space:
  "isspace c \<Longrightarrow> skip_whitespace c inp = skip_whitespace (fst (getchar inp)) (snd (getchar inp))"
  by (subst skip_whitespace.simps) (simp split: prod.splits)

lemma skip_whitespace_other:
  "\<not> isspace c \<Longrightarrow> skip_whitespace c inp = (c, inp)"
  by (subst skip_whitespace.simps) simp

lemma skip_whitespace_run:
  "\<forall>ch\<in>set ws. space_char ch \<Longrightarrow>
   skip_whitespace (fst (getchar (ws @ txt))) (snd (getchar (ws @ txt))) =
   skip_whitespace (fst (getchar txt)) (snd (getchar txt))"
proof (induction ws)
  case Nil
  show ?case by simp
next
  case (Cons w ws)
  then show ?case
    by (simp add: space_char_def skip_whitespace_space)
qed

lemma gettok_unread:
  "gettok (unread txt s) =
     (case skip_whitespace (fst (getchar txt)) (snd (getchar txt)) of (c, inp) \<Rightarrow>
      if isalpha c then
        (case read_identifier (IdentifierStr s) inp of (c', idstr, inp') \<Rightarrow>
           (if idstr = ''def'' then tok_def
            else if idstr = ''extern'' then tok_extern
            else tok_identifier,
            s\<lparr>LastChar := c', IdentifierStr := idstr, Input := inp'\<rparr>))
      else if isdigit c \<or> c = of_char CHR ''.'' then
        (case read_number [] c inp of (c', NumStr, inp') \<Rightarrow>
           (tok_number, s\<lparr>LastChar := c', NumVal := strtod NumStr, Input := inp'\<rparr>))
      else if c = of_char CHR ''#'' then
        (case skip_comment inp of (c', inp') \<Rightarrow>
           if c' \<noteq> EOF then gettok (s\<lparr>LastChar := c', Input := inp'\<rparr>)
           else (tok_eof, s\<lparr>LastChar := c', Input := inp'\<rparr>))
      else if c = EOF then (tok_eof, s\<lparr>LastChar := c, Input := inp\<rparr>)
      else (case getchar inp of (c', inp') \<Rightarrow> (c, s\<lparr>LastChar := c', Input := inp'\<rparr>)))"
proof -
  obtain c0 inp0 where g: "getchar txt = (c0, inp0)"
    by (cases "getchar txt")
  show ?thesis
    unfolding unread_def g
    by (subst gettok.simps) (simp cong: if_cong)
qed
lemma gettok_skips_whitespace:
  "\<forall>ch\<in>set ws. space_char ch \<Longrightarrow> gettok (unread (ws @ txt) s) = gettok (unread txt s)"
  by (simp only: gettok_unread skip_whitespace_run)

lemma skip_comment_eof:
  "\<forall>ch\<in>set body. \<not> line_end_char ch \<Longrightarrow> skip_comment body = (EOF, [])"
proof (induction body)
  case Nil
  show ?case by (subst skip_comment.simps) simp
next
  case (Cons b body)
  then show ?case
    by (subst skip_comment.simps) (simp add: line_end_char_def of_char_eq_code)
qed

lemma skip_comment_line:
  "\<forall>ch\<in>set body. \<not> line_end_char ch \<Longrightarrow> line_end_char nl \<Longrightarrow>
   skip_comment (body @ nl # post) = (of_char nl, post)"
proof (induction body)
  case Nil
  then show ?case
    by (subst skip_comment.simps) (auto simp: line_end_char_def of_char_eq_code)
next
  case (Cons b body)
  then show ?case
    by (subst skip_comment.simps) (simp add: line_end_char_def of_char_eq_code)
qed

lemma gettok_at_comment:
  "\<forall>ch\<in>set ws. space_char ch \<Longrightarrow>
   gettok (unread (ws @ CHR ''#'' # rest) s) =
     (case skip_comment rest of (c', inp') \<Rightarrow>
        if c' \<noteq> EOF then gettok (s\<lparr>LastChar := c', Input := inp'\<rparr>)
        else (tok_eof, s\<lparr>LastChar := c', Input := inp'\<rparr>))"
proof -
  assume ws: "\<forall>ch\<in>set ws. space_char ch"
  have "gettok (unread (ws @ CHR ''#'' # rest) s) = gettok (unread (CHR ''#'' # rest) s)"
    using ws by (rule gettok_skips_whitespace)
  also have "\<dots> = (case skip_comment rest of (c', inp') \<Rightarrow>
        if c' \<noteq> EOF then gettok (s\<lparr>LastChar := c', Input := inp'\<rparr>)
        else (tok_eof, s\<lparr>LastChar := c', Input := inp'\<rparr>))"
    by (simp add: gettok_unread skip_whitespace_other isspace_def isalpha_def isdigit_def)
  finally show ?thesis .
qed

lemma line_end_is_space: "line_end_char nl \<Longrightarrow> space_char nl"
  by (auto simp: line_end_char_def space_char_def isspace_def)

lemma gettok_skips_comment:
  assumes "\<forall>ch\<in>set ws. space_char ch" and "\<forall>ch\<in>set body. \<not> line_end_char ch"
    and "line_end_char nl"
  shows "gettok (unread (ws @ CHR ''#'' # body @ nl # post) s) = gettok (unread (ws @ post) s)"
proof -
  have "gettok (unread (ws @ CHR ''#'' # body @ nl # post) s) =
      gettok (s\<lparr>LastChar := of_char nl, Input := post\<rparr>)"
    using assms by (simp add: gettok_at_comment skip_comment_line)
  also have "\<dots> = gettok (unread ([nl] @ post) s)"
    by (simp add: unread_def)
  also have "\<dots> = gettok (unread post s)"
    using assms(3) by (intro gettok_skips_whitespace) (simp add: line_end_is_space)
  also have "\<dots> = gettok (unread (ws @ post) s)"
    using assms(1) by (simp add: gettok_skips_whitespace)
  finally show ?thesis .
qed

lemma gettok_comment_eof:
  assumes "\<forall>ch\<in>set ws. space_char ch" and "\<forall>ch\<in>set body. \<not> line_end_char ch"
  shows "gettok (unread (ws @ CHR ''#'' # body) s) = (tok_eof, unread [] s)"
proof -
  have "gettok (unread (ws @ CHR ''#'' # body) s) = (tok_eof, s\<lparr>LastChar := EOF, Input := []\<rparr>)"
    using assms by (simp add: gettok_at_comment skip_comment_eof)
  then show ?thesis
    by (simp add: unread_def)
qed


text \<open>
  Claim C9. When the lexer, after any white space, is at a \<^verbatim>\<open>#\<close> and no newline or carriage
  return follows before the end of the input, \<open>gettok\<close> returns \<open>tok_eof\<close>; it has then
  consumed the whole input and neither calls itself nor returns another token.
\<close>

theorem comment_at_end_of_input:
  assumes "\<forall>ch\<in>set ws. space_char ch" and "\<forall>ch\<in>set body. \<not> line_end_char ch"
  shows "gettok (unread (ws @ CHR ''#'' # body) s) = (tok_eof, unread [] s)"
proof -
  have "gettok (unread (ws @ CHR ''#'' # body) s) = (tok_eof, s\<lparr>LastChar := EOF, Input := []\<rparr>)"
    using assms by (simp add: gettok_at_comment skip_comment_eof)
  then show ?thesis
    by (simp add: unread_def)
qed


theorem comment_at_end_of_input_witness:
  "gettok (unread ('' '' @ CHR ''#'' # ''no line end'') (main (start []))) =
     (tok_eof, unread [] (main (start [])))"
  using comment_at_end_of_input [of "'' ''" "''no line end''" "main (start [])"]
  by (simp add: space_char_def line_end_char_def isspace_def)

text \<open>
  Numbers, identifiers, the end of the input and single characters. With the lemmas on
  comments above, these cover every text that can be in front of the lexer.
\<close>

lemma getchar_eq: "getchar txt = (fst (getchar txt), snd (getchar txt))"
  by simp

lemma not_EOF_class [simp]:
  "\<not> isdigit EOF" "\<not> isalpha EOF" "\<not> isalnum EOF" "EOF \<noteq> 46" "EOF \<noteq> 35"
  by (simp_all add: isdigit_def isalpha_def isalnum_def EOF_def)

lemma read_number_run:
  assumes "\<forall>ch\<in>set run. number_char ch" and "\<forall>ch\<in>set (take 1 rest). \<not> number_char ch"
  shows "read_number acc c (run @ rest) =
     (fst (getchar rest), acc @ char_of c # run, snd (getchar rest))"
  using assms
proof (induction run arbitrary: acc c)
  case Nil
  then show ?case
    by (subst read_number.simps) (cases rest; simp add: number_char_def of_char_eq_code)
next
  case (Cons r run)
  then show ?case
    by (subst read_number.simps) (simp add: number_char_def of_char_eq_code)
qed

lemma read_identifier_run:
  assumes "\<forall>ch\<in>set run. alnum_char ch" and "\<forall>ch\<in>set (take 1 rest). \<not> alnum_char ch"
  shows "read_identifier acc (run @ rest) = (fst (getchar rest), acc @ run, snd (getchar rest))"
  using assms
proof (induction run arbitrary: acc)
  case Nil
  then show ?case
    by (subst read_identifier.simps) (cases rest; simp add: alnum_char_def)
next
  case (Cons r run)
  then show ?case
    by (subst read_identifier.simps) (simp add: alnum_char_def)
qed

lemma skip_whitespace_to:
  assumes "\<forall>ch\<in>set ws. space_char ch" and "\<not> space_char c"
  shows "skip_whitespace (fst (getchar (ws @ c # rest))) (snd (getchar (ws @ c # rest))) =
     (of_char c, rest)"
  using assms by (simp add: skip_whitespace_run skip_whitespace_other space_char_def)

lemma skip_whitespace_to_end:
  assumes "\<forall>ch\<in>set ws. space_char ch"
  shows "skip_whitespace (fst (getchar ws)) (snd (getchar ws)) = (EOF, [])"
  using skip_whitespace_run [OF assms, of "[]"] by (simp add: skip_whitespace_other)

lemma number_char_class:
  "number_char c \<Longrightarrow> \<not> space_char c \<and> \<not> alpha_char c \<and> c \<noteq> CHR ''#''"
  by (auto simp: number_char_def space_char_def alpha_char_def isdigit_def isspace_def isalpha_def)

lemma alpha_char_class:
  "alpha_char c \<Longrightarrow> \<not> space_char c"
  by (auto simp: space_char_def alpha_char_def isspace_def isalpha_def)

lemma gettok_identifier_run:
  assumes "\<forall>ch\<in>set ws. space_char ch" and "alpha_char c"
    and "\<forall>ch\<in>set run. alnum_char ch" and "\<forall>ch\<in>set (take 1 rest). \<not> alnum_char ch"
  shows "gettok (unread (ws @ c # run @ rest) s) =
     (if IdentifierStr s @ run = ''def'' then tok_def
      else if IdentifierStr s @ run = ''extern'' then tok_extern
      else tok_identifier,
      (unread rest s)\<lparr>IdentifierStr := IdentifierStr s @ run\<rparr>)"
proof -
  have sw: "skip_whitespace (fst (getchar (ws @ c # run @ rest)))
      (snd (getchar (ws @ c # run @ rest))) = (of_char c, run @ rest)"
    using assms(1) alpha_char_class [OF assms(2)] by (simp add: skip_whitespace_to)
  have cl: "isalpha (of_char c)"
    using assms(2) by (simp add: alpha_char_def)
  show ?thesis
    unfolding gettok_unread sw using cl
    by (simp add: read_identifier_run [OF assms(3,4)] unread_def split: prod.splits)
qed

lemma gettok_end_of_input:
  assumes "\<forall>ch\<in>set ws. space_char ch"
  shows "gettok (unread ws s) = (tok_eof, unread [] s)"
  unfolding gettok_unread skip_whitespace_to_end [OF assms]
  by (simp add: unread_def)

lemma gettok_other_char:
  assumes "\<forall>ch\<in>set ws. space_char ch"
    and "\<not> space_char c" and "\<not> alpha_char c" and "\<not> number_char c" and "c \<noteq> CHR ''#''"
  shows "gettok (unread (ws @ c # rest) s) = (of_char c, unread rest s)"
proof -
  have cl: "\<not> isalpha (of_char c)" "\<not> (isdigit (of_char c) \<or> of_char c = (46::int))"
    "of_char c \<noteq> (35::int)"
    using assms(3,4,5) by (simp_all add: alpha_char_def number_char_def of_char_eq_code)
  show ?thesis
    unfolding gettok_unread skip_whitespace_to [OF assms(1,2)] using cl
    by (simp add: unread_def split: prod.splits)
qed

lemma gettok_number_run:
  assumes "\<forall>ch\<in>set ws. space_char ch" and "number_char c"
    and "\<forall>ch\<in>set run. number_char ch" and "\<forall>ch\<in>set (take 1 rest). \<not> number_char ch"
  shows "gettok (unread (ws @ c # run @ rest) s) =
     (tok_number, (unread rest s)\<lparr>NumVal := strtod (c # run)\<rparr>)"
proof -
  have sw: "skip_whitespace (fst (getchar (ws @ c # run @ rest)))
      (snd (getchar (ws @ c # run @ rest))) = (of_char c, run @ rest)"
    using assms(1) number_char_class [OF assms(2)] by (simp add: skip_whitespace_to)
  have cl: "\<not> isalpha (of_char c)" "isdigit (of_char c) \<or> of_char c = (46::int)"
    using assms(2) number_char_class [OF assms(2)]
    by (simp_all add: alpha_char_def number_char_def of_char_eq_code)
  have rn: "read_number [] (of_char c) (run @ rest) =
      (fst (getchar rest), c # run, snd (getchar rest))"
    using read_number_run [OF assms(3,4), of "[]" "of_char c"] by simp
  show ?thesis
    unfolding gettok_unread sw using cl
    by (simp add: rn unread_def split: prod.splits)
qed

text \<open>
  Claim C10. A dot at the start of a token starts a number: when the first character after
  any white space is a digit or a dot, \<open>gettok\<close> consumes the longest run of digits and
  dots that starts there (what is left unread does not start with a digit or a dot) and
  returns \<open>tok_number\<close>, with \<open>NumVal\<close> converted from that run. A lone dot gives a
  number token, not the character token of the dot.
\<close>

theorem number_token_run:
  assumes "\<forall>ch\<in>set ws. space_char ch" and "number_char c"
    and "\<forall>ch\<in>set run. number_char ch" and "\<forall>ch\<in>set (take 1 rest). \<not> number_char ch"
  shows "gettok (unread (ws @ c # run @ rest) s) =
     (tok_number, (unread rest s)\<lparr>NumVal := strtod (c # run)\<rparr>)"
proof -
  have sw: "skip_whitespace (fst (getchar (ws @ c # run @ rest)))
      (snd (getchar (ws @ c # run @ rest))) = (of_char c, run @ rest)"
    using assms(1) number_char_class [OF assms(2)] by (simp add: skip_whitespace_to)
  have cl: "\<not> isalpha (of_char c)" "isdigit (of_char c) \<or> of_char c = (46::int)"
    using assms(2) number_char_class [OF assms(2)]
    by (simp_all add: alpha_char_def number_char_def of_char_eq_code)
  have rn: "read_number [] (of_char c) (run @ rest) =
      (fst (getchar rest), c # run, snd (getchar rest))"
    using read_number_run [OF assms(3,4), of "[]" "of_char c"] by simp
  show ?thesis
    unfolding gettok_unread sw using cl
    by (simp add: rn unread_def split: prod.splits)
qed

theorem number_token_run_witness:
  "gettok (unread ('' '' @ CHR ''.'' # [] @ []) (main (start []))) =
     (tok_number, (unread [] (main (start [])))\<lparr>NumVal := strtod [CHR ''.'']\<rparr>) \<and>
   gettok (unread ('' '' @ CHR ''1'' # ''.5.'' @ ''+2'') (main (start []))) =
     (tok_number, (unread ''+2'' (main (start [])))\<lparr>NumVal := strtod (CHR ''1'' # ''.5.'')\<rparr>)"
  using number_token_run [of "'' ''" "CHR ''.''" "[]" "[]" "main (start [])"]
    number_token_run [of "'' ''" "CHR ''1''" "''.5.''" "''+2''" "main (start [])"]
  by (simp add: space_char_def number_char_def isspace_def isdigit_def)


text \<open>
  Claim C3. The claim is that an alphabetic character starts a token whose text is the
  whole run of alphanumeric characters, compared with \<^verbatim>\<open>def\<close> and \<^verbatim>\<open>extern\<close>. The source
  does not do that (lemma \<open>gettok_identifier_run\<close>): the loop reads the next character
  before it appends, so the first character of the run is never stored, and
  \<open>IdentifierStr\<close> is never cleared, so the text of the earlier identifiers stays in front.
  On the input \<^verbatim>\<open>def\<close> the lexer returns \<open>tok_identifier\<close> with the text \<^verbatim>\<open>ef\<close>; on \<^verbatim>\<open>xdef\<close> it
  returns \<open>tok_def\<close>; after \<^verbatim>\<open>ab\<close> the identifier \<^verbatim>\<open>cd\<close> carries the text \<^verbatim>\<open>bd\<close>.
\<close>

theorem keyword_def_lexed_as_identifier:
  "fst (gettok (start ''def'')) = tok_identifier \<and>
   IdentifierStr (snd (gettok (start ''def''))) = ''ef'' \<and>
   fst (gettok (start ''xdef'')) = tok_def \<and>
   fst (gettok (snd (gettok (start ''ab cd'')))) = tok_identifier \<and>
   IdentifierStr (snd (gettok (snd (gettok (start ''ab cd''))))) = ''bd''"
  by code_simp

subsection \<open>What the lexer leaves alone\<close>

text \<open>
  \<open>gettok\<close> changes only the look-ahead, the identifier text, the number value and the
  input. So \<open>getNextToken\<close> leaves the precedence table and standard error as they are.
\<close>

lemma gettok_frame:
  "\<exists>c idstr nv inp. snd (gettok s) = s\<lparr>LastChar := c, IdentifierStr := idstr, NumVal := nv, Input := inp\<rparr>"
proof (induction s rule: gettok.induct)
  case (1 s)
  obtain c inp where sw: "skip_whitespace (LastChar s) (Input s) = (c, inp)"
    by (cases "skip_whitespace (LastChar s) (Input s)")
  obtain c1 idstr inp1 where ri: "read_identifier (IdentifierStr s) inp = (c1, idstr, inp1)"
    by (cases "read_identifier (IdentifierStr s) inp")
  obtain c2 numstr inp2 where rn: "read_number [] c inp = (c2, numstr, inp2)"
    by (cases "read_number [] c inp")
  obtain c3 inp3 where sc: "skip_comment inp = (c3, inp3)"
    by (cases "skip_comment inp")
  obtain c4 inp4 where gc: "getchar inp = (c4, inp4)"
    by (cases "getchar inp")
  have upd: "\<exists>c idstr nv inp. t = s\<lparr>LastChar := c, IdentifierStr := idstr, NumVal := nv, Input := inp\<rparr>"
    if "t = s\<lparr>LastChar := a, IdentifierStr := b, NumVal := d, Input := e\<rparr>" for t a b d e
    using that by blast
  consider (alpha) "isalpha c"
    | (num) "\<not> isalpha c" "isdigit c \<or> c = of_char CHR ''.''"
    | (comment) "\<not> isalpha c" "\<not> (isdigit c \<or> c = of_char CHR ''.'')" "c = of_char CHR ''#''" "c3 \<noteq> EOF"
    | (comment_eof) "\<not> isalpha c" "\<not> (isdigit c \<or> c = of_char CHR ''.'')" "c = of_char CHR ''#''" "c3 = EOF"
    | (eof) "\<not> isalpha c" "\<not> (isdigit c \<or> c = of_char CHR ''.'')" "c \<noteq> of_char CHR ''#''" "c = EOF"
    | (other) "\<not> isalpha c" "\<not> (isdigit c \<or> c = of_char CHR ''.'')" "c \<noteq> of_char CHR ''#''" "c \<noteq> EOF"
    by blast
  then show ?case
  proof cases
    case alpha
    then have "snd (gettok s) = s\<lparr>LastChar := c1, IdentifierStr := idstr, NumVal := NumVal s, Input := inp1\<rparr>"
      by (subst gettok.simps) (simp add: sw ri)
    then show ?thesis by (rule upd)
  next
    case num
    then have "snd (gettok s) = s\<lparr>LastChar := c2, IdentifierStr := IdentifierStr s, NumVal := strtod numstr, Input := inp2\<rparr>"
      by (subst gettok.simps) (simp add: sw rn)
    then show ?thesis by (rule upd)
  next
    case comment
    then have g: "gettok s = gettok (s\<lparr>LastChar := c3, Input := inp3\<rparr>)"
      by (subst gettok.simps) (simp add: sw sc)
    from comment have "\<exists>c idstr nv inp. snd (gettok (s\<lparr>LastChar := c3, Input := inp3\<rparr>)) =
        s\<lparr>LastChar := c3, Input := inp3\<rparr>\<lparr>LastChar := c, IdentifierStr := idstr, NumVal := nv, Input := inp\<rparr>"
      by (intro "1.IH" [OF sw [symmetric] _ _ _ sc [symmetric]]) simp_all
    then show ?thesis
      unfolding g by simp
  next
    case comment_eof
    then have "snd (gettok s) = s\<lparr>LastChar := c3, IdentifierStr := IdentifierStr s, NumVal := NumVal s, Input := inp3\<rparr>"
      by (subst gettok.simps) (simp add: sw sc)
    then show ?thesis by (rule upd)
  next
    case eof
    then have "snd (gettok s) = s\<lparr>LastChar := c, IdentifierStr := IdentifierStr s, NumVal := NumVal s, Input := inp\<rparr>"
      by (subst gettok.simps) (simp add: sw)
    then show ?thesis by (rule upd)
  next
    case other
    then have "snd (gettok s) = s\<lparr>LastChar := c4, IdentifierStr := IdentifierStr s, NumVal := NumVal s, Input := inp4\<rparr>"
      by (subst gettok.simps) (simp add: sw gc)
    then show ?thesis by (rule upd)
  qed
qed

lemma getNextToken_frame:
  "BinopPrecedence (getNextToken s) = BinopPrecedence s \<and> Stderr (getNextToken s) = Stderr s"
proof -
  obtain c idstr nv inp where
    "snd (gettok s) = s\<lparr>LastChar := c, IdentifierStr := idstr, NumVal := nv, Input := inp\<rparr>"
    using gettok_frame by blast
  then show ?thesis
    by (cases "gettok s") (simp add: getNextToken_def)
qed

subsection \<open>The precedence table and the operator loop\<close>

lemma char_of_eq_iff:
  fixes c :: int
  assumes "0 \<le> c" and "c < 256"
  shows "(char_of c = ch) = (c = of_char ch)"
proof
  assume "char_of c = ch"
  then have "of_char (char_of c) = (of_char ch :: int)"
    by simp
  then show "c = of_char ch"
    using assms by (simp add: of_char_of)
next
  assume "c = of_char ch"
  then show "char_of c = ch"
    by simp
qed

lemma lookup_main:
  "lookup (BinopPrecedence (main (start inp))) key =
     (if key = CHR ''<'' then 10 else if key = CHR ''+'' then 20
      else if key = CHR ''-'' then 30 else if key = CHR ''*'' then 40 else 0)"
  by (simp add: lookup_def main_def start_def)

lemma GetTokPrecedence_lookup:
  "fst (GetTokPrecedence s) =
     (if isascii (CurTok s) \<and> 0 < lookup (BinopPrecedence s) (char_of (CurTok s))
      then lookup (BinopPrecedence s) (char_of (CurTok s)) else - 1)"
  by (simp add: GetTokPrecedence_def lookup_def Let_def split: option.splits)

lemma GetTokPrecedence_main_table:
  assumes "main_table (BinopPrecedence s)"
  shows "fst (GetTokPrecedence s) =
     (if CurTok s = of_char CHR ''<'' then 10
      else if CurTok s = of_char CHR ''+'' then 20
      else if CurTok s = of_char CHR ''-'' then 30
      else if CurTok s = of_char CHR ''*'' then 40
      else - 1)"
proof (cases "isascii (CurTok s)")
  case False
  then show ?thesis
    by (auto simp: GetTokPrecedence_lookup isascii_def)
next
  case True
  then have r: "0 \<le> CurTok s" "CurTok s < 256"
    by (simp_all add: isascii_def)
  have l: "lookup (BinopPrecedence s) key =
     (if key = CHR ''<'' then 10 else if key = CHR ''+'' then 20
      else if key = CHR ''-'' then 30 else if key = CHR ''*'' then 40 else 0)" for key
    using assms lookup_main [of "[]" key] by (simp add: main_table_def)
  have e: "(char_of (CurTok s) = CHR ''<'') = (CurTok s = 60)"
    "(char_of (CurTok s) = CHR ''+'') = (CurTok s = 43)"
    "(char_of (CurTok s) = CHR ''-'') = (CurTok s = 45)"
    "(char_of (CurTok s) = CHR ''*'') = (CurTok s = 42)"
    by (simp_all add: char_of_eq_iff [OF r])
  have "fst (GetTokPrecedence s) =
     (if CurTok s = 60 then 10 else if CurTok s = 43 then 20
      else if CurTok s = 45 then 30 else if CurTok s = 42 then 40 else - 1)"
    unfolding GetTokPrecedence_lookup l e using True by simp
  then show ?thesis
    by simp
qed

lemma ParseBinOpRHS_size:
  "ParseBinOpRHS n p L s = Some (Some r, s') \<Longrightarrow> size L \<le> size r"
proof (induction n arbitrary: L s)
  case 0
  then show ?case by simp
next
  case (Suc n)
  show ?case
  proof (cases "fst (GetTokPrecedence s) < p")
    case True
    with Suc.prems show ?thesis
      by (auto split: prod.splits)
  next
    case False
    with Suc.prems obtain RHS s3 where
      "ParseBinOpRHS n p (BinaryExprAST (char_of (CurTok (snd (GetTokPrecedence s)))) L RHS) s3 =
         Some (Some r, s')"
      by (auto simp: Let_def split: prod.splits option.splits)
    from Suc.IH [OF this] show ?thesis
      by simp
  qed
qed

lemma ParseBinOpRHS_stop:
  "(map_option fst (ParseBinOpRHS (Suc n) ExprPrec LHS s) = Some (Some LHS)) =
     (fst (GetTokPrecedence s) < ExprPrec)"
proof (cases "fst (GetTokPrecedence s) < ExprPrec")
  case True
  then show ?thesis
    by (auto split: prod.splits)
next
  case False
  have "map_option fst (ParseBinOpRHS (Suc n) ExprPrec LHS s) \<noteq> Some (Some LHS)"
  proof
    assume "map_option fst (ParseBinOpRHS (Suc n) ExprPrec LHS s) = Some (Some LHS)"
    then obtain s' where "ParseBinOpRHS (Suc n) ExprPrec LHS s = Some (Some LHS, s')"
      by (cases "ParseBinOpRHS (Suc n) ExprPrec LHS s") auto
    with False obtain RHS s3 where
      "ParseBinOpRHS n ExprPrec
         (BinaryExprAST (char_of (CurTok (snd (GetTokPrecedence s)))) LHS RHS) s3 =
         Some (Some LHS, s')"
      by (auto simp: Let_def split: prod.splits option.splits)
    from ParseBinOpRHS_size [OF this] show False
      by simp
  qed
  with False show ?thesis
    by simp
qed

lemma ParseBinOpRHS_continue:
  assumes "\<not> fst (GetTokPrecedence s) < ExprPrec"
  shows "ParseBinOpRHS (Suc n) ExprPrec LHS s =
     (case ParsePrimary n (getNextToken (snd (GetTokPrecedence s))) of
        None \<Rightarrow> None
      | Some (None, s2) \<Rightarrow> Some (None, s2)
      | Some (Some RHS, s2) \<Rightarrow>
          ParseBinOpRHS n ExprPrec
            (BinaryExprAST (char_of (CurTok s)) LHS RHS) (snd (GetTokPrecedence s2)))"
proof -
  obtain TokPrec s1 where g: "GetTokPrecedence s = (TokPrec, s1)"
    by (cases "GetTokPrecedence s")
  have c: "CurTok s1 = CurTok s"
    using g by (auto simp: GetTokPrecedence_def Let_def split: option.splits if_splits)
  show ?thesis
    using assms by (simp add: g c split: option.splits prod.splits)
qed


text \<open>
  Claim C5. In every state whose table answers every lookup as the table filled by \<^verbatim>\<open>main\<close>
  does, \<open>GetTokPrecedence\<close> returns 10 for \<^verbatim>\<open><\<close>, 20 for \<^verbatim>\<open>+\<close>, 30 for \<^verbatim>\<open>-\<close>, 40 for \<^verbatim>\<open>*\<close>
  and -1 for every other value of \<open>CurTok\<close>, the negative tokens and the codes above 127
  included. An iteration of the loop of \<open>ParseBinOpRHS\<close> stops and returns its left-hand
  side unchanged exactly when the lookup is below \<open>ExprPrec\<close>; otherwise it consumes the
  operator and a primary, and either returns the null pointer of a failed primary or goes
  round with the combined node.
\<close>

theorem precedence_lookup_and_stop:
  assumes "main_table (BinopPrecedence s)"
  shows "fst (GetTokPrecedence s) =
     (if CurTok s = of_char CHR ''<'' then 10
      else if CurTok s = of_char CHR ''+'' then 20
      else if CurTok s = of_char CHR ''-'' then 30
      else if CurTok s = of_char CHR ''*'' then 40
      else - 1) \<and>
    ((map_option fst (ParseBinOpRHS (Suc n) ExprPrec LHS s) = Some (Some LHS)) =
       (fst (GetTokPrecedence s) < ExprPrec)) \<and>
    ParseBinOpRHS (Suc n) ExprPrec LHS s =
      (if fst (GetTokPrecedence s) < ExprPrec then Some (Some LHS, snd (GetTokPrecedence s))
       else
         (case ParsePrimary n (getNextToken (snd (GetTokPrecedence s))) of
            None \<Rightarrow> None
          | Some (None, s2) \<Rightarrow> Some (None, s2)
          | Some (Some RHS, s2) \<Rightarrow>
              ParseBinOpRHS n ExprPrec
                (BinaryExprAST (char_of (CurTok s)) LHS RHS) (snd (GetTokPrecedence s2))))"
proof (intro conjI)
  show "fst (GetTokPrecedence s) =
     (if CurTok s = of_char CHR ''<'' then 10
      else if CurTok s = of_char CHR ''+'' then 20
      else if CurTok s = of_char CHR ''-'' then 30
      else if CurTok s = of_char CHR ''*'' then 40
      else - 1)"
    by (rule GetTokPrecedence_main_table [OF assms])
next
  show "(map_option fst (ParseBinOpRHS (Suc n) ExprPrec LHS s) = Some (Some LHS)) =
       (fst (GetTokPrecedence s) < ExprPrec)"
    by (rule ParseBinOpRHS_stop)
next
  show "ParseBinOpRHS (Suc n) ExprPrec LHS s =
      (if fst (GetTokPrecedence s) < ExprPrec then Some (Some LHS, snd (GetTokPrecedence s))
       else
         (case ParsePrimary n (getNextToken (snd (GetTokPrecedence s))) of
            None \<Rightarrow> None
          | Some (None, s2) \<Rightarrow> Some (None, s2)
          | Some (Some RHS, s2) \<Rightarrow>
              ParseBinOpRHS n ExprPrec
                (BinaryExprAST (char_of (CurTok s)) LHS RHS) (snd (GetTokPrecedence s2))))"
  proof (cases "fst (GetTokPrecedence s) < ExprPrec")
    case True
    then show ?thesis
      by (cases "GetTokPrecedence s") simp
  next
    case False
    then show ?thesis
      by (simp only: ParseBinOpRHS_continue [OF False] if_False)
  qed
qed

theorem precedence_lookup_and_stop_witness:
  "fst (GetTokPrecedence ((main (start []))\<lparr>CurTok := of_char CHR ''-''\<rparr>)) = 30 \<and>
   fst (GetTokPrecedence ((main (start []))\<lparr>CurTok := of_char CHR '')''\<rparr>)) = - 1 \<and>
   fst (GetTokPrecedence ((main (start []))\<lparr>CurTok := 200\<rparr>)) = - 1 \<and>
   fst (GetTokPrecedence ((main (start []))\<lparr>CurTok := tok_eof\<rparr>)) = - 1 \<and>
   map_option fst (ParseBinOpRHS (Suc 0) 0 (NumberExprAST 1)
     ((main (start []))\<lparr>CurTok := tok_eof\<rparr>)) = Some (Some (NumberExprAST 1))"
proof -
  have m: "main_table (BinopPrecedence ((main (start []))\<lparr>CurTok := c\<rparr>))" for c
    by (simp add: main_table_def)
  note p = precedence_lookup_and_stop [OF m, of _ 0 0 "NumberExprAST 1"]
  have 1: "fst (GetTokPrecedence ((main (start []))\<lparr>CurTok := of_char CHR ''-''\<rparr>)) = 30"
    using p [of "of_char CHR ''-''", THEN conjunct1] by simp
  have 2: "fst (GetTokPrecedence ((main (start []))\<lparr>CurTok := of_char CHR '')''\<rparr>)) = - 1"
    using p [of "of_char CHR '')''", THEN conjunct1] by simp
  have 3: "fst (GetTokPrecedence ((main (start []))\<lparr>CurTok := 200\<rparr>)) = - 1"
    using p [of 200, THEN conjunct1] by simp
  have 4: "fst (GetTokPrecedence ((main (start []))\<lparr>CurTok := tok_eof\<rparr>)) = - 1"
    using p [of tok_eof, THEN conjunct1] by (simp add: tok_eof_def)
  have 5: "map_option fst (ParseBinOpRHS (Suc 0) 0 (NumberExprAST 1)
     ((main (start []))\<lparr>CurTok := tok_eof\<rparr>)) = Some (Some (NumberExprAST 1))"
    unfolding p [of tok_eof, THEN conjunct2, THEN conjunct1] 4 by simp
  from 1 2 3 4 5 show ?thesis
    by blast
qed

subsection \<open>The precedence table after \<^verbatim>\<open>main\<close>\<close>

lemma grows_by_zero_refl [simp]: "grows_by_zero t t"
  by (simp add: grows_by_zero_def)

lemma grows_by_zero_trans:
  "grows_by_zero t t' \<Longrightarrow> grows_by_zero t' t'' \<Longrightarrow> grows_by_zero t t''"
  unfolding grows_by_zero_def by metis

lemma grows_by_zero_lookup:
  "grows_by_zero t t' \<Longrightarrow> lookup t' key = lookup t key"
  unfolding grows_by_zero_def lookup_def by (metis option.simps(4,5))

lemma isascii_char_of: "isascii c \<Longrightarrow> isascii (of_char (char_of c))"
  by (simp add: isascii_def of_char_of)

lemma GetTokPrecedence_table:
  "BinopPrecedence (snd (GetTokPrecedence s)) =
     (if isascii (CurTok s) \<and> BinopPrecedence s (char_of (CurTok s)) = None
      then (BinopPrecedence s)(char_of (CurTok s) \<mapsto> 0)
      else BinopPrecedence s)"
  by (auto simp: GetTokPrecedence_def Let_def split: option.splits)

lemma GetTokPrecedence_grows:
  "grows_by_zero (BinopPrecedence s) (BinopPrecedence (snd (GetTokPrecedence s)))"
  unfolding GetTokPrecedence_table by (auto simp: grows_by_zero_def isascii_def)

lemma getNextToken_table [simp]: "BinopPrecedence (getNextToken s) = BinopPrecedence s"
  by (simp add: getNextToken_frame)

lemma LogError_table [simp]: "BinopPrecedence (snd (LogError msg s)) = BinopPrecedence s"
  by (simp add: LogError_def)

lemma ParseNumberExpr_table [simp]:
  "BinopPrecedence (snd (ParseNumberExpr s)) = BinopPrecedence s"
  by (simp add: ParseNumberExpr_def)

lemma parse_grows:
  shows "ParsePrimary n s = Some (r, s') \<Longrightarrow>
      grows_by_zero (BinopPrecedence s) (BinopPrecedence s')"
    and "ParseParenExpr n s = Some (r, s') \<Longrightarrow>
      grows_by_zero (BinopPrecedence s) (BinopPrecedence s')"
    and "ParseIdentifierExpr n s = Some (r, s') \<Longrightarrow>
      grows_by_zero (BinopPrecedence s) (BinopPrecedence s')"
    and "ParseArgs n Args s = Some (ra, s') \<Longrightarrow>
      grows_by_zero (BinopPrecedence s) (BinopPrecedence s')"
    and "ParseExpression n s = Some (r, s') \<Longrightarrow>
      grows_by_zero (BinopPrecedence s) (BinopPrecedence s')"
    and "ParseBinOpRHS n p L s = Some (r, s') \<Longrightarrow>
      grows_by_zero (BinopPrecedence s) (BinopPrecedence s')"
proof (induction n arbitrary: s r ra s' Args p L)
  case 0
  {
    case 1 then show ?case by simp
  next
    case 2 then show ?case by simp
  next
    case 3 then show ?case by simp
  next
    case 4 then show ?case by simp
  next
    case 5 then show ?case by simp
  next
    case 6 then show ?case by simp
  }
next
  case (Suc n)
  {
    case 1
    then show ?case
      using Suc.IH(2,3) [of s r s']
      by (auto split: if_splits simp: ParseNumberExpr_def LogError_def)
  next
    case 2
    then show ?case
      using Suc.IH(5) [of "getNextToken s"]
      by (auto split: option.splits prod.splits if_splits simp: LogError_def)
  next
    case 3
    then show ?case
      using Suc.IH(4) [of "[]" "getNextToken (getNextToken s)"]
      by (auto simp: Let_def split: option.splits prod.splits if_splits)
  next
    case 4
    from 4 obtain x s1 where x: "ParseExpression n s = Some (x, s1)"
      by (auto split: option.splits)
    note g1 = Suc.IH(5) [OF x]
    show ?case
    proof (cases x)
      case None
      with 4 x g1 show ?thesis by simp
    next
      case (Some Arg1)
      show ?thesis
      proof (cases "CurTok s1 = of_char CHR '')'' \<or> CurTok s1 \<noteq> of_char CHR '',''")
        case True
        with 4 x Some g1 show ?thesis
          by (auto simp: LogError_def split: if_splits)
      next
        case False
        with 4 x Some have "ParseArgs n (Args @ [Arg1]) (getNextToken s1) = Some (ra, s')"
          by simp
        from Suc.IH(4) [OF this] g1 show ?thesis
          by (simp add: grows_by_zero_trans)
      qed
    qed
  next
    case 5
    from 5 obtain x s1 where x: "ParsePrimary n s = Some (x, s1)"
      by (auto split: option.splits)
    note g1 = Suc.IH(1) [OF x]
    show ?case
    proof (cases x)
      case None
      with 5 x g1 show ?thesis by simp
    next
      case (Some LHS)
      with 5 x have "ParseBinOpRHS n 0 LHS s1 = Some (r, s')"
        by simp
      from Suc.IH(6) [OF this] g1 show ?thesis
        by (rule grows_by_zero_trans [rotated])
    qed
  next
    case 6
    obtain TokPrec s1 where g: "GetTokPrecedence s = (TokPrec, s1)"
      by (cases "GetTokPrecedence s")
    have g0: "grows_by_zero (BinopPrecedence s) (BinopPrecedence s1)"
      using GetTokPrecedence_grows [of s] by (simp add: g)
    show ?case
    proof (cases "TokPrec < p")
      case True
      with 6 g g0 show ?thesis by simp
    next
      case False
      with 6 g obtain x s2 where x: "ParsePrimary n (getNextToken s1) = Some (x, s2)"
        by (auto simp: Let_def split: option.splits)
      have g1: "grows_by_zero (BinopPrecedence s) (BinopPrecedence s2)"
        using Suc.IH(1) [OF x] g0 by (simp add: grows_by_zero_trans)
      show ?thesis
      proof (cases x)
        case None
        with 6 g False x g1 show ?thesis by simp
      next
        case (Some RHS)
        obtain NextPrec s3 where h: "GetTokPrecedence s2 = (NextPrec, s3)"
          by (cases "GetTokPrecedence s2")
        have g2: "grows_by_zero (BinopPrecedence s) (BinopPrecedence s3)"
          using GetTokPrecedence_grows [of s2] g1 by (simp add: h grows_by_zero_trans)
        from 6 g False x Some h
        have "ParseBinOpRHS n p (BinaryExprAST (char_of (CurTok s1)) L RHS) s3 = Some (r, s')"
          by simp
        from Suc.IH(6) [OF this] g2 show ?thesis
          by (rule grows_by_zero_trans [rotated])
      qed
    qed
  }
qed


text \<open>
  Claim C2 says that no lookup and no parse operation adds, removes or modifies an entry of
  the table. A lookup does add one: for an ASCII token that has no entry,
  \<^verbatim>\<open>BinopPrecedence[CurTok]\<close> inserts the key with the value 0 (the test \<^verbatim>\<open>TokPrec <= 0\<close>
  then makes the lookup return -1). After \<^verbatim>\<open>main\<close> the table has no entry for \<^verbatim>\<open>)\<close>; it has
  one after a lookup with the current token \<^verbatim>\<open>)\<close>, and after parsing \<^verbatim>\<open>(1)\<close>.
\<close>

theorem table_changed_by_lookup:
  "BinopPrecedence (main (start [])) CHR '')'' = None \<and>
   BinopPrecedence (snd (GetTokPrecedence ((main (start []))\<lparr>CurTok := of_char CHR '')''\<rparr>)))
     CHR '')'' = Some 0 \<and>
   map_option fst (parse_expression_of 6 ''(1)'') = Some (Some (NumberExprAST 1)) \<and>
   BinopPrecedence (main (start ''(1)'')) CHR '')'' = None \<and>
   BinopPrecedence (snd (the (parse_expression_of 6 ''(1)''))) CHR '')'' = Some 0"
  by code_simp


text \<open>
  Claim C2, amended. A call of \<open>GetTokPrecedence\<close> changes the table in exactly one case:
  when \<open>CurTok\<close> is an ASCII value that has no entry, it inserts that key with the value 0;
  in every other case it leaves the table as it is. \<open>getNextToken\<close> never changes it. The
  parse functions change it only through such lookups: after any of them every key has
  the entry it had before, or had none and now has the value 0 and is an ASCII
  character. Such insertions change the result of no lookup: in any state,
  \<open>GetTokPrecedence\<close> returns the same with the table after a parse as with the table
  before it.
\<close>

theorem table_only_grows_by_zero:
  "BinopPrecedence (snd (GetTokPrecedence s)) =
     (if isascii (CurTok s) \<and> BinopPrecedence s (char_of (CurTok s)) = None
      then (BinopPrecedence s)(char_of (CurTok s) \<mapsto> 0)
      else BinopPrecedence s) \<and>
   BinopPrecedence (getNextToken s) = BinopPrecedence s \<and>
   (case ParsePrimary n s of None \<Rightarrow> True
    | Some (r, s') \<Rightarrow> grows_by_zero (BinopPrecedence s) (BinopPrecedence s')) \<and>
   (case ParseParenExpr n s of None \<Rightarrow> True
    | Some (r, s') \<Rightarrow> grows_by_zero (BinopPrecedence s) (BinopPrecedence s')) \<and>
   (case ParseIdentifierExpr n s of None \<Rightarrow> True
    | Some (r, s') \<Rightarrow> grows_by_zero (BinopPrecedence s) (BinopPrecedence s')) \<and>
   (case ParseArgs n Args s of None \<Rightarrow> True
    | Some (r, s') \<Rightarrow> grows_by_zero (BinopPrecedence s) (BinopPrecedence s')) \<and>
   (case ParseExpression n s of None \<Rightarrow> True
    | Some (r, s') \<Rightarrow> grows_by_zero (BinopPrecedence s) (BinopPrecedence s')) \<and>
   (case ParseBinOpRHS n ExprPrec LHS s of None \<Rightarrow> True
    | Some (r, s') \<Rightarrow> grows_by_zero (BinopPrecedence s) (BinopPrecedence s')) \<and>
   (case ParseExpression n s of None \<Rightarrow> True
    | Some (r, s') \<Rightarrow>
        fst (GetTokPrecedence (t\<lparr>BinopPrecedence := BinopPrecedence s'\<rparr>)) =
        fst (GetTokPrecedence (t\<lparr>BinopPrecedence := BinopPrecedence s\<rparr>)))"
proof -
  have l: "fst (GetTokPrecedence (t\<lparr>BinopPrecedence := b'\<rparr>)) =
      fst (GetTokPrecedence (t\<lparr>BinopPrecedence := b\<rparr>))" if "grows_by_zero b b'" for b b'
    using grows_by_zero_lookup [OF that] by (simp add: GetTokPrecedence_lookup)
  have "(case ParsePrimary n s of None \<Rightarrow> True
    | Some (r, s') \<Rightarrow> grows_by_zero (BinopPrecedence s) (BinopPrecedence s')) \<and>
   (case ParseParenExpr n s of None \<Rightarrow> True
    | Some (r, s') \<Rightarrow> grows_by_zero (BinopPrecedence s) (BinopPrecedence s')) \<and>
   (case ParseIdentifierExpr n s of None \<Rightarrow> True
    | Some (r, s') \<Rightarrow> grows_by_zero (BinopPrecedence s) (BinopPrecedence s')) \<and>
   (case ParseArgs n Args s of None \<Rightarrow> True
    | Some (r, s') \<Rightarrow> grows_by_zero (BinopPrecedence s) (BinopPrecedence s')) \<and>
   (case ParseExpression n s of None \<Rightarrow> True
    | Some (r, s') \<Rightarrow> grows_by_zero (BinopPrecedence s) (BinopPrecedence s')) \<and>
   (case ParseBinOpRHS n ExprPrec LHS s of None \<Rightarrow> True
    | Some (r, s') \<Rightarrow> grows_by_zero (BinopPrecedence s) (BinopPrecedence s')) \<and>
   (case ParseExpression n s of None \<Rightarrow> True
    | Some (r, s') \<Rightarrow>
        fst (GetTokPrecedence (t\<lparr>BinopPrecedence := BinopPrecedence s'\<rparr>)) =
        fst (GetTokPrecedence (t\<lparr>BinopPrecedence := BinopPrecedence s\<rparr>)))"
    by (auto split: option.splits dest: parse_grows intro: l)
  then show ?thesis
    using GetTokPrecedence_table [of s] getNextToken_table [of s] by blast
qed

theorem table_only_grows_by_zero_witness:
  "grows_by_zero (BinopPrecedence (main (start ''(1)'')))
     (BinopPrecedence (snd (the (parse_expression_of 6 ''(1)''))))"
proof -
  have "parse_expression_of 6 ''(1)'' \<noteq> None"
    by code_simp
  then show ?thesis
    using table_only_grows_by_zero [where s = "getNextToken (main (start ''(1)''))" and n = 6,
        THEN conjunct2, THEN conjunct2]
    by (auto simp: parse_expression_of_def)
qed

subsection \<open>Operator chains\<close>

text \<open>
  Claim C1. The claim is that in \<^verbatim>\<open>1+2*3\<close> the right-hand side \<^verbatim>\<open>2\<close> absorbs the
  tighter-binding \<^verbatim>\<open>*\<close> before it is combined with \<^verbatim>\<open>1\<close>. In the source the branch
  \<^verbatim>\<open>if (TokPrec < NextPrec)\<close> is empty, so the loop combines from left to right whatever
  the precedences are: the result is \<^verbatim>\<open>BinaryExpr('*', BinaryExpr('+', 1, 2), 3)\<close>.
\<close>

theorem mixed_precedence_chain:
  "map_option fst (parse_expression_of (4 + k) ''1+2*3'') =
     Some (Some (BinaryExprAST CHR ''*''
       (BinaryExprAST CHR ''+'' (NumberExprAST 1) (NumberExprAST 2)) (NumberExprAST 3)))"
proof -
  have "map_option fst (parse_expression_of 4 ''1+2*3'') =
     Some (Some (BinaryExprAST CHR ''*''
       (BinaryExprAST CHR ''+'' (NumberExprAST 1) (NumberExprAST 2)) (NumberExprAST 3)))"
    by code_simp
  then obtain s' where "parse_expression_of 4 ''1+2*3'' =
     Some (Some (BinaryExprAST CHR ''*''
       (BinaryExprAST CHR ''+'' (NumberExprAST 1) (NumberExprAST 2)) (NumberExprAST 3)), s')"
    by (cases "parse_expression_of 4 ''1+2*3''") auto
  then have "parse_expression_of (4 + k) ''1+2*3'' =
     Some (Some (BinaryExprAST CHR ''*''
       (BinaryExprAST CHR ''+'' (NumberExprAST 1) (NumberExprAST 2)) (NumberExprAST 3)), s')"
    unfolding parse_expression_of_def by (rule fuel_mono(5) [rotated]) simp
  then show ?thesis
    by simp
qed

subsection \<open>Parenthesized expressions and calls\<close>

lemma fuel_more:
  "ParseExpression n s = Some r \<Longrightarrow> ParseExpression (n + k) s = Some r"
  using fuel_mono(5) [of n "n + k" s r] by simp

lemma Stderr_append_neq: "s1 \<noteq> s1\<lparr>Stderr := Stderr s1 @ [m]\<rparr>"
proof
  assume "s1 = s1\<lparr>Stderr := Stderr s1 @ [m]\<rparr>"
  then have "Stderr s1 = Stderr (s1\<lparr>Stderr := Stderr s1 @ [m]\<rparr>)"
    by simp
  then show False
    by simp
qed

lemma example_result:
  assumes "map_option fst (parse_expression_of n inp) = Some r"
  shows "map_option fst (parse_expression_of (n + k) inp) = Some r \<and>
    snd (the (parse_expression_of (n + k) inp)) = snd (the (parse_expression_of n inp))"
proof -
  from assms obtain s' where "parse_expression_of n inp = Some (r, s')"
    by (cases "parse_expression_of n inp") auto
  moreover from this have "parse_expression_of (n + k) inp = Some (r, s')"
    unfolding parse_expression_of_def by (rule fuel_more)
  ultimately show ?thesis
    by simp
qed


text \<open>
  Claim C6. Let the inner \<open>ParseExpression\<close> of \<open>ParseParenExpr\<close> return \<open>r\<close> in the state \<open>s1\<close>.
  When it failed (\<open>r\<close> is the null pointer) \<open>ParseParenExpr\<close> returns the null pointer and
  prints nothing itself. When it returned a tree, \<open>ParseParenExpr\<close> returns that same tree
  and reads the next token if the current token is \<^verbatim>\<open>)\<close>, and otherwise prints
  \<^verbatim>\<open>Error: Expected ')'\<close> and returns the null pointer. So it returns null with that
  message of its own exactly when an inner expression was parsed and the current token
  is not \<^verbatim>\<open>)\<close>. No constructor of the tree stands for parentheses. With any fuel from 6 on,
  \<^verbatim>\<open>(1+2\<close> gives the null pointer and that message, and \<^verbatim>\<open>(1+2)*3\<close> gives
  \<^verbatim>\<open>BinaryExpr('*', BinaryExpr('+', 1, 2), 3)\<close>.
\<close>

theorem paren_expr:
  assumes "ParseExpression n (getNextToken s) = Some (r, s1)"
  shows "ParseParenExpr (Suc n) s =
      (if r = None then Some (None, s1)
       else if CurTok s1 = of_char CHR '')'' then Some (r, getNextToken s1)
       else Some (None, s1\<lparr>Stderr := Stderr s1 @
          [''Error: Expected '' @ [CHR 0x27, CHR '')'', CHR 0x27, CHR 0x0A]]\<rparr>)) \<and>
    ((ParseParenExpr (Suc n) s =
        Some (None, s1\<lparr>Stderr := Stderr s1 @
          [''Error: Expected '' @ [CHR 0x27, CHR '')'', CHR 0x27, CHR 0x0A]]\<rparr>)) =
      (r \<noteq> None \<and> CurTok s1 \<noteq> of_char CHR '')'')) \<and>
    map_option (\<lambda>(r, s'). (r, Stderr s')) (parse_expression_of (6 + k) ''(1+2'') =
      Some (None, [''Error: Expected '' @ [CHR 0x27, CHR '')'', CHR 0x27, CHR 0x0A]]) \<and>
    map_option fst (parse_expression_of (6 + k) ''(1+2)*3'') =
      Some (Some (BinaryExprAST CHR ''*''
        (BinaryExprAST CHR ''+'' (NumberExprAST 1) (NumberExprAST 2)) (NumberExprAST 3)))"
proof (intro conjI)
  show eq: "ParseParenExpr (Suc n) s =
      (if r = None then Some (None, s1)
       else if CurTok s1 = of_char CHR '')'' then Some (r, getNextToken s1)
       else Some (None, s1\<lparr>Stderr := Stderr s1 @
          [''Error: Expected '' @ [CHR 0x27, CHR '')'', CHR 0x27, CHR 0x0A]]\<rparr>))"
    using assms by (cases r) (simp_all add: LogError_def Expected_rparen_def)
  show "(ParseParenExpr (Suc n) s =
        Some (None, s1\<lparr>Stderr := Stderr s1 @
          [''Error: Expected '' @ [CHR 0x27, CHR '')'', CHR 0x27, CHR 0x0A]]\<rparr>)) =
      (r \<noteq> None \<and> CurTok s1 \<noteq> of_char CHR '')'')"
    unfolding eq using Stderr_append_neq [of s1] by auto
next
  have "map_option fst (parse_expression_of 6 ''(1+2'') = Some None"
    and e: "Stderr (snd (the (parse_expression_of 6 ''(1+2''))) =
      [''Error: Expected '' @ [CHR 0x27, CHR '')'', CHR 0x27, CHR 0x0A]]"
    by code_simp+
  from example_result [OF this(1), of k] e
  show "map_option (\<lambda>(r, s'). (r, Stderr s')) (parse_expression_of (6 + k) ''(1+2'') =
      Some (None, [''Error: Expected '' @ [CHR 0x27, CHR '')'', CHR 0x27, CHR 0x0A]])"
    by (cases "parse_expression_of (6 + k) ''(1+2''") auto
next
  have "map_option fst (parse_expression_of 6 ''(1+2)*3'') =
      Some (Some (BinaryExprAST CHR ''*''
        (BinaryExprAST CHR ''+'' (NumberExprAST 1) (NumberExprAST 2)) (NumberExprAST 3)))"
    by code_simp
  from example_result [OF this, of k]
  show "map_option fst (parse_expression_of (6 + k) ''(1+2)*3'') =
      Some (Some (BinaryExprAST CHR ''*''
        (BinaryExprAST CHR ''+'' (NumberExprAST 1) (NumberExprAST 2)) (NumberExprAST 3)))"
    by simp
qed

theorem paren_expr_witness:
  "map_option fst (ParseParenExpr 5 (getNextToken (main (start ''(1+2'')))) = Some None \<and>
   map_option fst (ParseParenExpr 5 (getNextToken (main (start ''(1+2)'')))) =
     Some (Some (BinaryExprAST CHR ''+'' (NumberExprAST 1) (NumberExprAST 2)))"
proof -
  have a: "map_option fst (ParseExpression 4 (getNextToken (getNextToken (main (start ''(1+2''))))) =
      Some (Some (BinaryExprAST CHR ''+'' (NumberExprAST 1) (NumberExprAST 2)))"
    and a': "CurTok (snd (the (ParseExpression 4 (getNextToken (getNextToken (main (start ''(1+2''))))))) = tok_eof"
    and b: "map_option fst (ParseExpression 4 (getNextToken (getNextToken (main (start ''(1+2)''))))) =
      Some (Some (BinaryExprAST CHR ''+'' (NumberExprAST 1) (NumberExprAST 2)))"
    and b': "CurTok (snd (the (ParseExpression 4 (getNextToken (getNextToken (main (start ''(1+2)''))))))) = of_char CHR '')''"
    by code_simp+
  from a obtain sa where sa: "ParseExpression 4 (getNextToken (getNextToken (main (start ''(1+2'')))) =
      Some (Some (BinaryExprAST CHR ''+'' (NumberExprAST 1) (NumberExprAST 2)), sa)"
    by (cases "ParseExpression 4 (getNextToken (getNextToken (main (start ''(1+2''))))") auto
  from b obtain sb where sb: "ParseExpression 4 (getNextToken (getNextToken (main (start ''(1+2)'')))) =
      Some (Some (BinaryExprAST CHR ''+'' (NumberExprAST 1) (NumberExprAST 2)), sb)"
    by (cases "ParseExpression 4 (getNextToken (getNextToken (main (start ''(1+2)''))))") auto
  have "CurTok sa \<noteq> of_char CHR '')''" "CurTok sb = of_char CHR '')''"
    using a' b' by (simp_all add: sa sb tok_eof_def)
  then show ?thesis
    using paren_expr [OF sa, THEN conjunct1] paren_expr [OF sb, THEN conjunct1]
    by (simp add: numeral_eq_Suc)
qed

lemma map_option_append_single: "map_option ((@) [A]) a = map_option ((#) A) a"
  by (cases a) simp_all

lemma map_option_append_assoc: "map_option ((@) (Args @ [A])) a = map_option ((@) Args) (map_option ((@) [A]) a)"
  by (cases a) simp_all

lemma ParseArgs_accumulator:
  "ParseArgs n Args s =
     map_option (\<lambda>(r, s'). (map_option (\<lambda>new. Args @ new) r, s')) (ParseArgs n [] s)"
proof (induction n arbitrary: Args s)
  case 0
  show ?case by simp
next
  case (Suc n)
  show ?case
  proof (cases "ParseExpression n s")
    case None
    then show ?thesis by simp
  next
    case (Some x)
    obtain r s1 where x: "x = (r, s1)"
      by (cases x)
    show ?thesis
    proof (cases r)
      case None
      with Some x show ?thesis by simp
    next
      case A: (Some A)
      have a: "ParseArgs n (Args @ [A]) (getNextToken s1) =
          map_option (\<lambda>(r, s'). (map_option (\<lambda>new. (Args @ [A]) @ new) r, s'))
            (ParseArgs n [] (getNextToken s1))"
        by (rule Suc.IH)
      have b: "ParseArgs n [A] (getNextToken s1) =
          map_option (\<lambda>(r, s'). (map_option (\<lambda>new. [A] @ new) r, s'))
            (ParseArgs n [] (getNextToken s1))"
        by (rule Suc.IH)
      have "ParseArgs n (Args @ [A]) (getNextToken s1) =
          map_option (\<lambda>(r, s'). (map_option (\<lambda>new. Args @ new) r, s'))
            (ParseArgs n [A] (getNextToken s1))"
        unfolding a b
        by (cases "ParseArgs n [] (getNextToken s1)") (auto simp: map_option_append_assoc split: option.splits)
      with Some x A show ?thesis
        by (simp add: LogError_def)
    qed
  qed
qed

lemma ParseArgs_first:
  "ParseArgs (Suc n) [] s =
     (case ParseExpression n s of
        None \<Rightarrow> None
      | Some (None, s1) \<Rightarrow> Some (None, s1)
      | Some (Some A, s1) \<Rightarrow>
          if CurTok s1 = of_char CHR '')'' then Some (Some [A], s1)
          else if CurTok s1 = of_char CHR '','' then
            map_option (\<lambda>(r, s'). (map_option (\<lambda>rest. A # rest) r, s'))
              (ParseArgs n [] (getNextToken s1))
          else Some (None, s1\<lparr>Stderr := Stderr s1 @
            [''Error: Expected '' @ [CHR 0x27, CHR '')'', CHR 0x27] @ '' or '' @
             [CHR 0x27, CHR '','', CHR 0x27] @ '' in argument list'' @ [CHR 0x0A]]\<rparr>))"
proof -
  have "ParseArgs n [A] t =
      map_option (\<lambda>(r, s'). (map_option (\<lambda>rest. A # rest) r, s')) (ParseArgs n [] t)" for A t
    unfolding ParseArgs_accumulator [of n "[A]" t]
    by (cases "ParseArgs n [] t") (auto simp: map_option_append_single split: option.splits)
  then show ?thesis
    by (simp add: LogError_def Expected_rparen_or_comma_def split: option.splits)
qed


text \<open>
  \<open>ParseIdentifierExpr\<close> keeps the text of \<open>IdentifierStr\<close> and reads the next token. If
  that token is not \<^verbatim>\<open>(\<close> it returns the variable with that text. Otherwise it reads past
  \<^verbatim>\<open>(\<close>; at a \<^verbatim>\<open>)\<close> it returns the call with no arguments, and else the call with the list
  that the argument loop returns (or its null pointer). One iteration of the loop parses
  an expression and appends it at the end of the list; then \<^verbatim>\<open>)\<close> ends the loop, \<^verbatim>\<open>,\<close> is
  skipped and the loop goes on, and any other token prints
  \<^verbatim>\<open>Error: Expected ')' or ',' in argument list\<close> and returns the null pointer. The list
  a loop returns is the list it started with followed by the new arguments, and the new
  arguments are the first one parsed followed by those parsed after it: source order.
\<close>

lemma ParseIdentifierExpr_flow:
  "ParseIdentifierExpr (Suc n) s =
     (if CurTok (getNextToken s) \<noteq> of_char CHR ''(''
      then Some (Some (VariableExprAST (IdentifierStr s)), getNextToken s)
      else if CurTok (getNextToken (getNextToken s)) = of_char CHR '')''
      then Some (Some (CallExprAST (IdentifierStr s) []),
        getNextToken (getNextToken (getNextToken s)))
      else
        (case ParseArgs n [] (getNextToken (getNextToken s)) of
           None \<Rightarrow> None
         | Some (None, s3) \<Rightarrow> Some (None, s3)
         | Some (Some Args, s3) \<Rightarrow>
             Some (Some (CallExprAST (IdentifierStr s) Args), getNextToken s3))) \<and>
   ParseArgs (Suc n) Args s =
     (case ParseExpression n s of
        None \<Rightarrow> None
      | Some (None, s1) \<Rightarrow> Some (None, s1)
      | Some (Some A, s1) \<Rightarrow>
          if CurTok s1 = of_char CHR '')'' then Some (Some (Args @ [A]), s1)
          else if CurTok s1 = of_char CHR '','' then ParseArgs n (Args @ [A]) (getNextToken s1)
          else Some (None, s1\<lparr>Stderr := Stderr s1 @
            [''Error: Expected '' @ [CHR 0x27, CHR '')'', CHR 0x27] @ '' or '' @
             [CHR 0x27, CHR '','', CHR 0x27] @ '' in argument list'' @ [CHR 0x0A]]\<rparr>)) \<and>
   ParseArgs n Args s =
     map_option (\<lambda>(r, s'). (map_option (\<lambda>new. Args @ new) r, s')) (ParseArgs n [] s) \<and>
   ParseArgs (Suc n) [] s =
     (case ParseExpression n s of
        None \<Rightarrow> None
      | Some (None, s1) \<Rightarrow> Some (None, s1)
      | Some (Some A, s1) \<Rightarrow>
          if CurTok s1 = of_char CHR '')'' then Some (Some [A], s1)
          else if CurTok s1 = of_char CHR '','' then
            map_option (\<lambda>(r, s'). (map_option (\<lambda>rest. A # rest) r, s'))
              (ParseArgs n [] (getNextToken s1))
          else Some (None, s1\<lparr>Stderr := Stderr s1 @
            [''Error: Expected '' @ [CHR 0x27, CHR '')'', CHR 0x27] @ '' or '' @
             [CHR 0x27, CHR '','', CHR 0x27] @ '' in argument list'' @ [CHR 0x0A]]\<rparr>))"
proof (intro conjI)
  show "ParseIdentifierExpr (Suc n) s =
     (if CurTok (getNextToken s) \<noteq> of_char CHR ''(''
      then Some (Some (VariableExprAST (IdentifierStr s)), getNextToken s)
      else if CurTok (getNextToken (getNextToken s)) = of_char CHR '')''
      then Some (Some (CallExprAST (IdentifierStr s) []),
        getNextToken (getNextToken (getNextToken s)))
      else
        (case ParseArgs n [] (getNextToken (getNextToken s)) of
           None \<Rightarrow> None
         | Some (None, s3) \<Rightarrow> Some (None, s3)
         | Some (Some Args, s3) \<Rightarrow>
             Some (Some (CallExprAST (IdentifierStr s) Args), getNextToken s3)))"
    by (simp add: Let_def)
next
  show "ParseArgs (Suc n) Args s =
     (case ParseExpression n s of
        None \<Rightarrow> None
      | Some (None, s1) \<Rightarrow> Some (None, s1)
      | Some (Some A, s1) \<Rightarrow>
          if CurTok s1 = of_char CHR '')'' then Some (Some (Args @ [A]), s1)
          else if CurTok s1 = of_char CHR '','' then ParseArgs n (Args @ [A]) (getNextToken s1)
          else Some (None, s1\<lparr>Stderr := Stderr s1 @
            [''Error: Expected '' @ [CHR 0x27, CHR '')'', CHR 0x27] @ '' or '' @
             [CHR 0x27, CHR '','', CHR 0x27] @ '' in argument list'' @ [CHR 0x0A]]\<rparr>))"
    by (simp add: LogError_def Expected_rparen_or_comma_def split: option.splits)
next
  show "ParseArgs n Args s =
     map_option (\<lambda>(r, s'). (map_option (\<lambda>new. Args @ new) r, s')) (ParseArgs n [] s)"
    by (rule ParseArgs_accumulator)
next
  show "ParseArgs (Suc n) [] s =
     (case ParseExpression n s of
        None \<Rightarrow> None
      | Some (None, s1) \<Rightarrow> Some (None, s1)
      | Some (Some A, s1) \<Rightarrow>
          if CurTok s1 = of_char CHR '')'' then Some (Some [A], s1)
          else if CurTok s1 = of_char CHR '','' then
            map_option (\<lambda>(r, s'). (map_option (\<lambda>rest. A # rest) r, s'))
              (ParseArgs n [] (getNextToken s1))
          else Some (None, s1\<lparr>Stderr := Stderr s1 @
            [''Error: Expected '' @ [CHR 0x27, CHR '')'', CHR 0x27] @ '' or '' @
             [CHR 0x27, CHR '','', CHR 0x27] @ '' in argument list'' @ [CHR 0x0A]]\<rparr>))"
    by (rule ParseArgs_first)
qed

lemma missing_comma:
  "map_option (\<lambda>(r, s'). (r, Stderr s')) (parse_expression_of 6 ''foo(1 2)'') =
     Some (None, [''Error: Expected '' @ [CHR 0x27, CHR '')'', CHR 0x27] @ '' or '' @
       [CHR 0x27, CHR '','', CHR 0x27] @ '' in argument list'' @ [CHR 0x0A]])"
  by code_simp

text \<open>
  Claim C7. The claim is that the variable or the call that \<open>ParseIdentifierExpr\<close> returns
  carries the name of the identifier that was read. It carries \<open>IdentifierStr\<close>, and the
  lexer does not leave the text of the identifier there: it drops the first character and
  keeps the text of the identifiers before (lemma \<open>gettok_identifier_run\<close>). On the input
  \<^verbatim>\<open>x\<close> the parser returns the variable with the empty name, and on \<^verbatim>\<open>foo(1, bar(2,3))\<close> it
  returns \<^verbatim>\<open>CallExpr("oo", [1, CallExpr("ooar", [2, 3])])\<close>, for any fuel from 3 and from 12
  on: the arguments are in source order, the names are not those of the text.
\<close>

theorem identifier_name_not_carried:
  "map_option fst (parse_expression_of (3 + k) ''x'') = Some (Some (VariableExprAST [])) \<and>
   map_option fst (parse_expression_of (12 + k) ''foo(1, bar(2,3))'') =
     Some (Some (CallExprAST ''oo''
       [NumberExprAST 1, CallExprAST ''ooar'' [NumberExprAST 2, NumberExprAST 3]]))"
proof
  have "map_option fst (parse_expression_of 3 ''x'') = Some (Some (VariableExprAST []))"
    by code_simp
  then show "map_option fst (parse_expression_of (3 + k) ''x'') =
      Some (Some (VariableExprAST []))"
    by (rule example_result [THEN conjunct1])
next
  have "map_option fst (parse_expression_of 12 ''foo(1, bar(2,3))'') =
     Some (Some (CallExprAST ''oo''
       [NumberExprAST 1, CallExprAST ''ooar'' [NumberExprAST 2, NumberExprAST 3]]))"
    by code_simp
  then show "map_option fst (parse_expression_of (12 + k) ''foo(1, bar(2,3))'') =
     Some (Some (CallExprAST ''oo''
       [NumberExprAST 1, CallExprAST ''ooar'' [NumberExprAST 2, NumberExprAST 3]]))"
    by (rule example_result [THEN conjunct1])
qed

subsection \<open>What a call of \<^verbatim>\<open>gettok\<close> depends on\<close>

text \<open>
  What a call of \<open>gettok\<close> returns, and what it writes to the look-ahead, the identifier
  text, the number value and the input, depends only on the look-ahead, the input and
  the identifier text before the call.
\<close>

lemma gettok_shape:
  "\<exists>tok c i nv inp. \<forall>t :: state.
     LastChar t = LastChar (s :: state) \<and> Input t = Input s \<and>
     IdentifierStr t = IdentifierStr s \<longrightarrow>
     gettok t = (tok, t\<lparr>LastChar := c, IdentifierStr := i,
       NumVal := (case nv of None \<Rightarrow> NumVal t | Some v \<Rightarrow> v), Input := inp\<rparr>)"
proof (induction s rule: gettok.induct)
  case (1 s)
  obtain c inp where sw: "skip_whitespace (LastChar s) (Input s) = (c, inp)"
    by (cases "skip_whitespace (LastChar s) (Input s)")
  obtain c1 idstr inp1 where ri: "read_identifier (IdentifierStr s) inp = (c1, idstr, inp1)"
    by (cases "read_identifier (IdentifierStr s) inp")
  obtain c2 numstr inp2 where rn: "read_number [] c inp = (c2, numstr, inp2)"
    by (cases "read_number [] c inp")
  obtain c3 inp3 where sc: "skip_comment inp = (c3, inp3)"
    by (cases "skip_comment inp")
  obtain c4 inp4 where gc: "getchar inp = (c4, inp4)"
    by (cases "getchar inp")
  consider (alpha) "isalpha c"
    | (num) "\<not> isalpha c" "isdigit c \<or> c = of_char CHR ''.''"
    | (comment) "\<not> isalpha c" "\<not> (isdigit c \<or> c = of_char CHR ''.'')" "c = of_char CHR ''#''" "c3 \<noteq> EOF"
    | (comment_eof) "\<not> isalpha c" "\<not> (isdigit c \<or> c = of_char CHR ''.'')" "c = of_char CHR ''#''" "c3 = EOF"
    | (eof) "\<not> isalpha c" "\<not> (isdigit c \<or> c = of_char CHR ''.'')" "c \<noteq> of_char CHR ''#''" "c = EOF"
    | (other) "\<not> isalpha c" "\<not> (isdigit c \<or> c = of_char CHR ''.'')" "c \<noteq> of_char CHR ''#''" "c \<noteq> EOF"
    by blast
  then show ?case
  proof cases
    case alpha
    have "gettok t = (if idstr = ''def'' then tok_def else if idstr = ''extern'' then tok_extern
          else tok_identifier,
        t\<lparr>LastChar := c1, IdentifierStr := idstr,
          NumVal := (case None of None \<Rightarrow> NumVal t | Some v \<Rightarrow> v), Input := inp1\<rparr>)"
      if "LastChar t = LastChar s \<and> Input t = Input s \<and> IdentifierStr t = IdentifierStr s"
      for t :: state
      using that alpha by (subst gettok.simps) (simp add: sw ri)
    then show ?thesis by blast
  next
    case num
    have "gettok t = (tok_number,
        t\<lparr>LastChar := c2, IdentifierStr := IdentifierStr s,
          NumVal := (case Some (strtod numstr) of None \<Rightarrow> NumVal t | Some v \<Rightarrow> v), Input := inp2\<rparr>)"
      if "LastChar t = LastChar s \<and> Input t = Input s \<and> IdentifierStr t = IdentifierStr s"
      for t :: state
      using that num by (subst gettok.simps) (simp add: sw rn)
    then show ?thesis by blast
  next
    case comment
    have "\<exists>tok c i nv inp. \<forall>t :: state.
       LastChar t = LastChar (s\<lparr>LastChar := c3, Input := inp3\<rparr>) \<and>
       Input t = Input (s\<lparr>LastChar := c3, Input := inp3\<rparr>) \<and>
       IdentifierStr t = IdentifierStr (s\<lparr>LastChar := c3, Input := inp3\<rparr>) \<longrightarrow>
       gettok t = (tok, t\<lparr>LastChar := c, IdentifierStr := i,
         NumVal := (case nv of None \<Rightarrow> NumVal t | Some v \<Rightarrow> v), Input := inp\<rparr>)"
      using comment by (intro "1.IH" [OF sw [symmetric] _ _ _ sc [symmetric]]) simp_all
    then obtain tok c' i nv inp' where ih: "\<And>t :: state. LastChar t = c3 \<Longrightarrow> Input t = inp3 \<Longrightarrow>
        IdentifierStr t = IdentifierStr s \<Longrightarrow>
        gettok t = (tok, t\<lparr>LastChar := c', IdentifierStr := i,
          NumVal := (case nv of None \<Rightarrow> NumVal t | Some v \<Rightarrow> v), Input := inp'\<rparr>)"
      by auto
    have "gettok t = (tok, t\<lparr>LastChar := c', IdentifierStr := i,
          NumVal := (case nv of None \<Rightarrow> NumVal t | Some v \<Rightarrow> v), Input := inp'\<rparr>)"
      if t: "LastChar t = LastChar s \<and> Input t = Input s \<and> IdentifierStr t = IdentifierStr s"
      for t :: state
    proof -
      have "gettok t = gettok (t\<lparr>LastChar := c3, Input := inp3\<rparr>)"
        using t comment by (subst gettok.simps) (simp add: sw sc)
      also have "\<dots> = (tok, t\<lparr>LastChar := c3, Input := inp3\<rparr>\<lparr>LastChar := c', IdentifierStr := i,
          NumVal := (case nv of None \<Rightarrow> NumVal (t\<lparr>LastChar := c3, Input := inp3\<rparr>) | Some v \<Rightarrow> v),
          Input := inp'\<rparr>)"
        using t by (intro ih) simp_all
      finally show ?thesis by (cases nv) simp_all
    qed
    then show ?thesis by blast
  next
    case comment_eof
    have "gettok t = (tok_eof,
        t\<lparr>LastChar := c3, IdentifierStr := IdentifierStr s,
          NumVal := (case None of None \<Rightarrow> NumVal t | Some v \<Rightarrow> v), Input := inp3\<rparr>)"
      if "LastChar t = LastChar s \<and> Input t = Input s \<and> IdentifierStr t = IdentifierStr s"
      for t :: state
      using that comment_eof by (subst gettok.simps) (simp add: sw sc)
    then show ?thesis by blast
  next
    case eof
    have "gettok t = (tok_eof,
        t\<lparr>LastChar := c, IdentifierStr := IdentifierStr s,
          NumVal := (case None of None \<Rightarrow> NumVal t | Some v \<Rightarrow> v), Input := inp\<rparr>)"
      if "LastChar t = LastChar s \<and> Input t = Input s \<and> IdentifierStr t = IdentifierStr s"
      for t :: state
      using that eof by (subst gettok.simps) (simp add: sw)
    then show ?thesis by blast
  next
    case other
    have "gettok t = (c,
        t\<lparr>LastChar := c4, IdentifierStr := IdentifierStr s,
          NumVal := (case None of None \<Rightarrow> NumVal t | Some v \<Rightarrow> v), Input := inp4\<rparr>)"
      if "LastChar t = LastChar s \<and> Input t = Input s \<and> IdentifierStr t = IdentifierStr s"
      for t :: state
      using that other by (subst gettok.simps) (simp add: sw gc)
    then show ?thesis by blast
  qed
qed

lemma gettok_same_fields:
  fixes s t :: state
  assumes "LastChar t = LastChar s" and "Input t = Input s"
    and "IdentifierStr t = IdentifierStr s" and "NumVal t = NumVal s"
  shows "fst (gettok t) = fst (gettok s) \<and>
    snd (gettok t) = t\<lparr>LastChar := LastChar (snd (gettok s)),
      IdentifierStr := IdentifierStr (snd (gettok s)),
      NumVal := NumVal (snd (gettok s)), Input := Input (snd (gettok s))\<rparr>"
proof -
  obtain tok c i nv inp where g: "\<And>t :: state. LastChar t = LastChar s \<Longrightarrow> Input t = Input s \<Longrightarrow>
      IdentifierStr t = IdentifierStr s \<Longrightarrow>
      gettok t = (tok, t\<lparr>LastChar := c, IdentifierStr := i,
        NumVal := (case nv of None \<Rightarrow> NumVal t | Some v \<Rightarrow> v), Input := inp\<rparr>)"
    using gettok_shape [of s] by blast
  show ?thesis
    using g [of s] g [of t] assms by (cases nv) simp_all
qed

lemma tokens_same_fields:
  fixes s t :: state
  assumes "LastChar t = LastChar s" and "Input t = Input s"
    and "IdentifierStr t = IdentifierStr s" and "NumVal t = NumVal s"
  shows "tokens n t = tokens n s"
  using assms
proof (induction n arbitrary: s t)
  case 0
  show ?case by simp
next
  case (Suc n)
  note f = gettok_same_fields [OF Suc.prems]
  have "tokens n (snd (gettok t)) = tokens n (snd (gettok s))"
    by (rule Suc.IH) (simp_all add: f)
  then show ?case
    using f by (simp add: case_prod_beta)
qed

lemma gettok_other_fields:
  "gettok (s\<lparr>CurTok := x\<rparr>) = (fst (gettok s), (snd (gettok s))\<lparr>CurTok := x\<rparr>)"
  "gettok (s\<lparr>Stderr := y\<rparr>) = (fst (gettok s), (snd (gettok s))\<lparr>Stderr := y\<rparr>)"
  "gettok (s\<lparr>BinopPrecedence := z\<rparr>) =
     (fst (gettok s), (snd (gettok s))\<lparr>BinopPrecedence := z\<rparr>)"
proof -
  obtain tok c i nv inp where g: "\<And>t :: state. LastChar t = LastChar s \<Longrightarrow> Input t = Input s \<Longrightarrow>
      IdentifierStr t = IdentifierStr s \<Longrightarrow>
      gettok t = (tok, t\<lparr>LastChar := c, IdentifierStr := i,
        NumVal := (case nv of None \<Rightarrow> NumVal t | Some v \<Rightarrow> v), Input := inp\<rparr>)"
    using gettok_shape [of s] by blast
  show "gettok (s\<lparr>CurTok := x\<rparr>) = (fst (gettok s), (snd (gettok s))\<lparr>CurTok := x\<rparr>)"
    using g [of s] g [of "s\<lparr>CurTok := x\<rparr>"] by (cases nv) simp_all
  show "gettok (s\<lparr>Stderr := y\<rparr>) = (fst (gettok s), (snd (gettok s))\<lparr>Stderr := y\<rparr>)"
    using g [of s] g [of "s\<lparr>Stderr := y\<rparr>"] by (cases nv) simp_all
  show "gettok (s\<lparr>BinopPrecedence := z\<rparr>) =
     (fst (gettok s), (snd (gettok s))\<lparr>BinopPrecedence := z\<rparr>)"
    using g [of s] g [of "s\<lparr>BinopPrecedence := z\<rparr>"] by (cases nv) simp_all
qed

subsection \<open>Left-associative chains\<close>

text \<open>
  A chain is a number followed by operators of the table of \<^verbatim>\<open>main\<close>, each with a number as
  its operand. The lexer returns the number tokens and the operator characters one by
  one, and at each operator the loop of \<open>ParseBinOpRHS\<close> finds a precedence that is not
  below 0, parses the operand and makes the tree built so far the left child of a new
  node.
\<close>

lemma operator_char_class:
  assumes "operator_char c"
  shows "\<not> space_char c" "\<not> alpha_char c" "\<not> number_char c" "c \<noteq> CHR ''#''"
    "isascii (of_char c)"
  using assms
  by (auto simp: operator_char_def space_char_def alpha_char_def number_char_def
      isspace_def isalpha_def isdigit_def isascii_def)

lemma getNextToken_number:
  assumes "\<forall>ch\<in>set ws. space_char ch" and "number_text d"
    and "\<forall>ch\<in>set (take 1 rest). \<not> number_char ch"
  shows "getNextToken (unread (ws @ d @ rest) s) =
     (unread rest s)\<lparr>NumVal := strtod d, CurTok := tok_number\<rparr>"
proof -
  from assms(2) obtain c run where d: "d = c # run"
    by (cases d) (auto simp: number_text_def)
  have "gettok (unread (ws @ c # run @ rest) s) =
      (tok_number, (unread rest s)\<lparr>NumVal := strtod (c # run)\<rparr>)"
    using assms(2)
    by (intro gettok_number_run [OF assms(1) _ _ assms(3)]) (simp_all add: d number_text_def)
  then show ?thesis
    by (simp add: getNextToken_def d)
qed

lemma getNextToken_operator:
  assumes "operator_char c"
  shows "getNextToken (unread (c # rest) s) = (unread rest s)\<lparr>CurTok := of_char c\<rparr>"
  using gettok_other_char [of "[]" c rest s] operator_char_class [OF assms]
  by (simp add: getNextToken_def)

lemma getNextToken_end:
  "getNextToken (unread [] s) = (unread [] s)\<lparr>CurTok := tok_eof\<rparr>"
  using gettok_end_of_input [of "[]" s] by (simp add: getNextToken_def)

lemma getNextToken_CurTok_update [simp]:
  "getNextToken (s\<lparr>CurTok := x\<rparr>) = getNextToken s"
  by (simp add: getNextToken_def gettok_other_fields(1) case_prod_beta)

lemma unread_NumVal_update:
  "(unread a s)\<lparr>NumVal := v\<rparr> = unread a (s\<lparr>NumVal := v\<rparr>)"
  by (simp add: unread_def split: prod.splits)

lemma unread_fields [simp]:
  "BinopPrecedence (unread a s) = BinopPrecedence s"
  "CurTok (unread a s) = CurTok s"
  "NumVal (unread a s) = NumVal s"
  "IdentifierStr (unread a s) = IdentifierStr s"
  "Stderr (unread a s) = Stderr s"
  by (simp_all add: unread_def split: prod.splits)


lemma chain_text_start:
  "operator_chain ops \<Longrightarrow> \<forall>ch\<in>set (take 1 (chain_text ops)). \<not> number_char ch"
  by (cases ops) (auto simp: operator_chain_def operator_char_class)

lemma getNextToken_chain:
  assumes "operator_chain ops"
  shows "getNextToken (unread (chain_text ops) s) = after_operand ops s"
proof (cases ops)
  case Nil
  then show ?thesis
    by (simp add: getNextToken_end)
next
  case (Cons a ops')
  obtain c d where a: "a = (c, d)"
    by (cases a)
  from assms have "operator_char c"
    by (simp add: operator_chain_def Cons a)
  then show ?thesis
    by (simp add: Cons a getNextToken_operator)
qed

lemma GetTokPrecedence_operator:
  assumes "operator_char c" and "CurTok s = of_char c"
    and "BinopPrecedence s = BinopPrecedence (main (start []))"
  shows "snd (GetTokPrecedence s) = s" "\<not> fst (GetTokPrecedence s) < 0"
  using assms
  by (auto simp: GetTokPrecedence_def Let_def operator_char_def isascii_def main_def start_def)

lemma GetTokPrecedence_eof:
  assumes "CurTok s = tok_eof"
  shows "GetTokPrecedence s = (- 1, s)"
  using assms by (simp add: GetTokPrecedence_def isascii_def tok_eof_def)

lemma GetTokPrecedence_after_operand:
  assumes "operator_chain ops" and "BinopPrecedence s = BinopPrecedence (main (start []))"
  shows "snd (GetTokPrecedence (after_operand ops s)) = after_operand ops s"
proof (cases ops)
  case Nil
  then show ?thesis
    by (simp add: GetTokPrecedence_eof)
next
  case (Cons a ops')
  obtain c d where a: "a = (c, d)"
    by (cases a)
  from assms(1) have "operator_char c"
    by (simp add: operator_chain_def Cons a)
  then show ?thesis
    unfolding Cons a using assms(2) by (intro GetTokPrecedence_operator(1) [of c]) simp_all
qed

lemma ParseBinOpRHS_chain:
  assumes "operator_chain ops" and "BinopPrecedence s = BinopPrecedence (main (start []))"
  shows "map_option fst (ParseBinOpRHS (Suc (length ops)) 0 L (after_operand ops s)) =
     Some (Some (left_nested L ops))"
  using assms
proof (induction ops arbitrary: L s)
  case Nil
  show ?case
    by (simp add: GetTokPrecedence_eof)
next
  case (Cons a ops)
  obtain c d where a: "a = (c, d)"
    by (cases a)
  from Cons.prems(1) have c: "operator_char c" and d: "number_text d"
    and ok: "operator_chain ops"
    by (simp_all add: operator_chain_def a)
  let ?s = "after_operand ((c, d) # ops) s"
  let ?s' = "s\<lparr>NumVal := strtod d\<rparr>"
  have t: "BinopPrecedence ?s = BinopPrecedence (main (start []))" "CurTok ?s = of_char c"
    using Cons.prems(2) by simp_all
  have g: "snd (GetTokPrecedence ?s) = ?s" "\<not> fst (GetTokPrecedence ?s) < 0"
    using GetTokPrecedence_operator [OF c t(2) t(1)] by simp_all
  have n: "getNextToken ?s = (unread (chain_text ops) ?s')\<lparr>CurTok := tok_number\<rparr>"
    using getNextToken_number [of "[]" d "chain_text ops" s, OF _ d chain_text_start [OF ok]]
    by (simp add: unread_NumVal_update)
  have p: "ParsePrimary (Suc (length ops)) (getNextToken ?s) =
      Some (Some (NumberExprAST (strtod d)), after_operand ops ?s')"
    unfolding n
    by (simp add: ParseNumberExpr_def getNextToken_chain [OF ok] tok_number_def tok_identifier_def)
  have t': "BinopPrecedence ?s' = BinopPrecedence (main (start []))"
    using Cons.prems(2) by simp
  have g': "snd (GetTokPrecedence (after_operand ops ?s')) = after_operand ops ?s'"
    by (rule GetTokPrecedence_after_operand [OF ok t'])
  have "ParseBinOpRHS (Suc (Suc (length ops))) 0 L ?s =
      ParseBinOpRHS (Suc (length ops)) 0 (BinaryExprAST c L (NumberExprAST (strtod d)))
        (after_operand ops ?s')"
    unfolding ParseBinOpRHS_continue [OF g(2)] g(1) p
    by (simp add: g' t(2) del: ParseBinOpRHS.simps after_operand.simps)
  then show ?case
    using Cons.IH [OF ok t', of "BinaryExprAST c L (NumberExprAST (strtod d))"]
    by (simp add: a del: ParseBinOpRHS.simps after_operand.simps)
qed

lemma main_start:
  "main (start inp) = unread (CHR '' '' # inp) (main (start []))"
  by (simp add: main_def start_def unread_def)

lemma strtod_digits:
  "strtod ''1'' = 1" "strtod ''2'' = 2" "strtod ''3'' = 3"
  by code_simp+


text \<open>
  Claim C4. Equal-precedence operator chains parse left-associatively. For every number
  text \<open>d0\<close> and every chain \<open>ops\<close> of operators of the table of \<^verbatim>\<open>main\<close> that have the same
  precedence, each followed by a number text, of any length, \<open>ParseExpression\<close> on the text
  of \<open>d0\<close> followed by the chain returns, with any fuel from the length of the chain plus
  2 on, the tree nested to the left: the first operator with the first two operands is
  innermost, the last operator is the root. On \<^verbatim>\<open>1-2-3\<close> that is
  \<^verbatim>\<open>BinaryExpr('-', BinaryExpr('-', 1, 2), 3)\<close>. Each number node holds what \<open>strtod\<close> returns
  for its text; the proof does not use what that value is. (Nor does it use that the
  precedences are equal: the loop nests every chain to the left, lemma
  \<open>ParseBinOpRHS_chain\<close>.)
\<close>

theorem left_associative_chain:
  assumes "number_text d0" and "operator_chain ops" and "equal_precedence ops"
  shows "map_option fst (parse_expression_of (length ops + 2 + k) (d0 @ chain_text ops)) =
     Some (Some (left_nested (NumberExprAST (strtod d0)) ops))"
proof -
  let ?s = "(main (start []))\<lparr>NumVal := strtod d0\<rparr>"
  have n: "getNextToken (main (start (d0 @ chain_text ops))) =
      (unread (chain_text ops) ?s)\<lparr>CurTok := tok_number\<rparr>"
    unfolding main_start [of "d0 @ chain_text ops"]
    using getNextToken_number [of "'' ''" d0 "chain_text ops" "main (start [])",
        OF _ assms(1) chain_text_start [OF assms(2)]]
    by (simp add: unread_NumVal_update space_char_def isspace_def)
  have p: "ParsePrimary (Suc (length ops)) (getNextToken (main (start (d0 @ chain_text ops)))) =
      Some (Some (NumberExprAST (strtod d0)), after_operand ops ?s)"
    unfolding n
    by (simp add: ParseNumberExpr_def getNextToken_chain [OF assms(2)] tok_number_def
        tok_identifier_def)
  have t: "BinopPrecedence ?s = BinopPrecedence (main (start []))"
    by simp
  have "map_option fst (parse_expression_of (length ops + 2) (d0 @ chain_text ops)) =
      Some (Some (left_nested (NumberExprAST (strtod d0)) ops))"
    unfolding parse_expression_of_def
    using ParseBinOpRHS_chain [OF assms(2) t, of "NumberExprAST (strtod d0)"]
    by (simp add: p del: ParseBinOpRHS.simps ParsePrimary.simps)
  then show ?thesis
    by (rule example_result [THEN conjunct1])
qed

theorem left_associative_chain_witness:
  "number_text ''1'' \<and> operator_chain [(CHR ''-'', ''2''), (CHR ''-'', ''3'')] \<and>
   equal_precedence [(CHR ''-'', ''2''), (CHR ''-'', ''3'')] \<and>
   (\<forall>k. map_option fst (parse_expression_of (4 + k) ''1-2-3'') =
     Some (Some (BinaryExprAST CHR ''-''
       (BinaryExprAST CHR ''-'' (NumberExprAST 1) (NumberExprAST 2)) (NumberExprAST 3))))"
proof -
  have h: "number_text ''1''" "operator_chain [(CHR ''-'', ''2''), (CHR ''-'', ''3'')]"
    "equal_precedence [(CHR ''-'', ''2''), (CHR ''-'', ''3'')]"
    by (simp_all add: number_text_def operator_chain_def equal_precedence_def operator_char_def
        number_char_def isdigit_def)
  have e: "length [(CHR ''-'', ''2''), (CHR ''-'', ''3'')] + 2 + k = 4 + k" for k
    by simp
  have "map_option fst (parse_expression_of (4 + k) ''1-2-3'') =
     Some (Some (BinaryExprAST CHR ''-''
       (BinaryExprAST CHR ''-'' (NumberExprAST 1) (NumberExprAST 2)) (NumberExprAST 3)))" for k
    using left_associative_chain [OF h, of k] unfolding e
    by (simp add: strtod_digits)
  with h show ?thesis
    by blast
qed

subsection \<open>Comments between tokens\<close>

text \<open>
  One call of \<open>gettok\<close> on a text, in general: it consumes a prefix \<open>pre\<close> of the text and
  leaves the rest unread, with new values \<open>i\<close> and \<open>v\<close> of the identifier text and the
  number value. When the token is not \<open>tok_eof\<close>, the call returns the same whatever
  follows \<open>pre\<close>, as long as what follows starts with the same character, or with a
  character that can continue neither an identifier nor a number (a \<^verbatim>\<open>#\<close> or white space,
  for example), or is empty. When the token is \<open>tok_eof\<close> the whole text was consumed, and
  the call returns the same with white space and a comment line added at the end of the
  text.
\<close>

lemma gettok_past_comment:
  assumes "\<forall>ch\<in>set ws. space_char ch" and "\<forall>ch\<in>set body. \<not> line_end_char ch"
    and "line_end_char nl"
  shows "gettok (unread (ws @ CHR ''#'' # body @ nl # post) s) = gettok (unread post s)"
  using gettok_skips_comment [OF assms, of post s] gettok_skips_whitespace [OF assms(1), of post s]
  by simp

lemma unread_same [simp]:
  "(unread txt s)\<lparr>IdentifierStr := IdentifierStr s, NumVal := NumVal s\<rparr> = unread txt s"
  by (simp add: unread_def split: prod.splits)

lemma unread_keep_NumVal:
  "(unread x s)\<lparr>IdentifierStr := j, NumVal := NumVal s\<rparr> = (unread x s)\<lparr>IdentifierStr := j\<rparr>"
  by (simp add: unread_def split: prod.splits)

lemma unread_keep_IdentifierStr:
  "(unread x s)\<lparr>IdentifierStr := IdentifierStr s, NumVal := j\<rparr> = (unread x s)\<lparr>NumVal := j\<rparr>"
  by (simp add: unread_def split: prod.splits)

lemma tok_eof_cases [simp]:
  "tok_def \<noteq> tok_eof" "tok_extern \<noteq> tok_eof" "tok_identifier \<noteq> tok_eof"
  "tok_number \<noteq> tok_eof" "of_char ch \<noteq> tok_eof"
  using of_char_not_EOF [of ch]
  by (simp_all add: tok_def_def tok_extern_def tok_identifier_def tok_number_def tok_eof_def EOF_def)

lemma take1_dropWhile:
  "\<forall>ch\<in>set (take 1 (dropWhile P xs)). \<not> P ch"
proof (cases "dropWhile P xs")
  case Nil
  show ?thesis unfolding Nil by simp
next
  case (Cons a list)
  then have "dropWhile P xs \<noteq> []"
    by simp
  from hd_dropWhile [OF this] show ?thesis
    unfolding Cons by simp
qed

lemma hash_class:
  "\<not> alnum_char CHR ''#''" "\<not> number_char CHR ''#''" "\<not> space_char CHR ''#''"
  "\<not> line_end_char CHR ''#''" "\<not> alpha_char CHR ''#''"
  by (simp_all add: alnum_char_def number_char_def space_char_def line_end_char_def
      alpha_char_def isalnum_def isalpha_def isdigit_def isspace_def)

lemma gettok_gapI:
  assumes "str = pre @ rest"
    and "gettok (unread str s) = (tok, (unread rest s)\<lparr>IdentifierStr := i, NumVal := v\<rparr>)"
    and "tok = tok_eof \<Longrightarrow> rest = []"
    and "\<And>ws1 body nl. tok = tok_eof \<Longrightarrow> \<forall>ch\<in>set ws1. space_char ch \<Longrightarrow>
       \<forall>ch\<in>set body. \<not> line_end_char ch \<Longrightarrow> line_end_char nl \<Longrightarrow>
       gettok (unread (str @ ws1 @ CHR ''#'' # body @ [nl]) s) =
         (tok_eof, (unread [] s)\<lparr>IdentifierStr := i, NumVal := v\<rparr>)"
    and "\<And>rest'. tok \<noteq> tok_eof \<Longrightarrow>
       (\<forall>ch\<in>set (take 1 rest'). \<not> alnum_char ch \<and> \<not> number_char ch) \<or>
           (rest \<noteq> [] \<and> take 1 rest' = take 1 rest) \<Longrightarrow>
       gettok (unread (pre @ rest') s) =
         (tok, (unread rest' s)\<lparr>IdentifierStr := i, NumVal := v\<rparr>)"
  shows "\<exists>tok pre rest i v.
     str = pre @ rest \<and>
     gettok (unread str s) = (tok, (unread rest s)\<lparr>IdentifierStr := i, NumVal := v\<rparr>) \<and>
     (tok = tok_eof \<longrightarrow> rest = [] \<and>
        (\<forall>ws1 body nl. (\<forall>ch\<in>set ws1. space_char ch) \<longrightarrow>
           (\<forall>ch\<in>set body. \<not> line_end_char ch) \<longrightarrow> line_end_char nl \<longrightarrow>
           gettok (unread (str @ ws1 @ CHR ''#'' # body @ [nl]) s) =
             (tok_eof, (unread [] s)\<lparr>IdentifierStr := i, NumVal := v\<rparr>))) \<and>
     (tok \<noteq> tok_eof \<longrightarrow>
        (\<forall>rest'. (\<forall>ch\<in>set (take 1 rest'). \<not> alnum_char ch \<and> \<not> number_char ch) \<or>
           (rest \<noteq> [] \<and> take 1 rest' = take 1 rest) \<longrightarrow>
           gettok (unread (pre @ rest') s) =
             (tok, (unread rest' s)\<lparr>IdentifierStr := i, NumVal := v\<rparr>)))"
  apply (rule exI [of _ tok], rule exI [of _ pre], rule exI [of _ rest],
      rule exI [of _ i], rule exI [of _ v])
  apply (intro conjI impI allI)
      apply (rule assms(1))
     apply (rule assms(2))
    apply (erule assms(3))
   apply (rule assms(4); assumption)
  apply (rule assms(5); assumption)
  done

lemma gettok_gap:
  "\<exists>tok pre rest i v.
     str = pre @ rest \<and>
     gettok (unread str s) = (tok, (unread rest s)\<lparr>IdentifierStr := i, NumVal := v\<rparr>) \<and>
     (tok = tok_eof \<longrightarrow> rest = [] \<and>
        (\<forall>ws1 body nl. (\<forall>ch\<in>set ws1. space_char ch) \<longrightarrow>
           (\<forall>ch\<in>set body. \<not> line_end_char ch) \<longrightarrow> line_end_char nl \<longrightarrow>
           gettok (unread (str @ ws1 @ CHR ''#'' # body @ [nl]) s) =
             (tok_eof, (unread [] s)\<lparr>IdentifierStr := i, NumVal := v\<rparr>))) \<and>
     (tok \<noteq> tok_eof \<longrightarrow>
        (\<forall>rest'. (\<forall>ch\<in>set (take 1 rest'). \<not> alnum_char ch \<and> \<not> number_char ch) \<or>
           (rest \<noteq> [] \<and> take 1 rest' = take 1 rest) \<longrightarrow>
           gettok (unread (pre @ rest') s) =
             (tok, (unread rest' s)\<lparr>IdentifierStr := i, NumVal := v\<rparr>)))"
proof (induction str rule: length_induct)
  case (1 str)
  define ws where "ws = takeWhile space_char str"
  define rem where "rem = dropWhile space_char str"
  have str: "str = ws @ rem"
    by (simp add: ws_def rem_def)
  have ws: "\<forall>ch\<in>set ws. space_char ch"
    by (auto simp: ws_def dest: set_takeWhileD)
  show ?case
  proof (cases rem)
    case Nil
    have g: "gettok (unread ws s) = (tok_eof, unread [] s)"
      by (rule gettok_end_of_input [OF ws])
    show ?thesis
    proof (rule gettok_gapI [where tok = tok_eof and pre = str and rest = "[]"
          and i = "IdentifierStr s" and v = "NumVal s"])
      show "str = str @ []"
        by simp
      show "gettok (unread str s) =
          (tok_eof, (unread [] s)\<lparr>IdentifierStr := IdentifierStr s, NumVal := NumVal s\<rparr>)"
        unfolding unread_same str Nil append_Nil2 by (rule g)
      show "[] = ([] :: string)"
        by simp
      show "gettok (unread (str @ ws1 @ CHR ''#'' # body @ [nl]) s) =
          (tok_eof, (unread [] s)\<lparr>IdentifierStr := IdentifierStr s, NumVal := NumVal s\<rparr>)"
        if w1: "\<forall>ch\<in>set ws1. space_char ch"
          and b: "\<forall>ch\<in>set body. \<not> line_end_char ch" and nl: "line_end_char nl" for ws1 body nl
      proof -
        have w: "\<forall>ch\<in>set (ws @ ws1). space_char ch"
          using ws w1 by auto
        have "gettok (unread ((ws @ ws1) @ CHR ''#'' # body @ nl # []) s) =
            gettok (unread ((ws @ ws1) @ []) s)"
          by (rule gettok_skips_comment [OF w b nl])
        also have "\<dots> = (tok_eof, unread [] s)"
          unfolding append_Nil2 by (rule gettok_end_of_input [OF w])
        finally show ?thesis
          unfolding unread_same str Nil append_Nil2 append_assoc .
      qed
      show "gettok (unread (str @ rest') s) =
          (tok_eof, (unread rest' s)\<lparr>IdentifierStr := IdentifierStr s, NumVal := NumVal s\<rparr>)"
        if "tok_eof \<noteq> tok_eof" for rest'
        using that by simp
    qed
  next
    case (Cons c r)
    have nsp: "\<not> space_char c"
      using take1_dropWhile [of space_char str] unfolding rem_def [symmetric] Cons by simp
    consider (alpha) "alpha_char c" | (num) "number_char c"
      | (comment) "c = CHR ''#''"
      | (other) "\<not> alpha_char c" "\<not> number_char c" "c \<noteq> CHR ''#''"
      by blast
    then show ?thesis
    proof cases
      case alpha
      define run where "run = takeWhile alnum_char r"
      define rest where "rest = dropWhile alnum_char r"
      define tok where "tok = (if IdentifierStr s @ run = ''def'' then tok_def
        else if IdentifierStr s @ run = ''extern'' then tok_extern else tok_identifier)"
      have r: "r = run @ rest"
        by (simp add: run_def rest_def)
      have run: "\<forall>ch\<in>set run. alnum_char ch"
        by (auto simp: run_def dest: set_takeWhileD)
      have rest: "\<forall>ch\<in>set (take 1 rest). \<not> alnum_char ch"
        unfolding rest_def by (rule take1_dropWhile)
      have g: "gettok (unread ((ws @ c # run) @ rest') s) =
          (tok, (unread rest' s)\<lparr>IdentifierStr := IdentifierStr s @ run, NumVal := NumVal s\<rparr>)"
        if "\<forall>ch\<in>set (take 1 rest'). \<not> alnum_char ch" for rest'
        unfolding unread_keep_NumVal tok_def
        using gettok_identifier_run [OF ws alpha run that, of s] by simp
      have ne: "tok \<noteq> tok_eof"
        by (simp add: tok_def)
      show ?thesis
      proof (rule gettok_gapI [where tok = tok and pre = "ws @ c # run" and rest = rest
            and i = "IdentifierStr s @ run" and v = "NumVal s"])
        show "str = (ws @ c # run) @ rest"
          by (simp add: str Cons r)
        then show "gettok (unread str s) =
            (tok, (unread rest s)\<lparr>IdentifierStr := IdentifierStr s @ run, NumVal := NumVal s\<rparr>)"
          using g [OF rest] by simp
        show "rest = []" if "tok = tok_eof"
          using that ne by simp
        show "gettok (unread (str @ ws1 @ CHR ''#'' # body @ [nl]) s) =
            (tok_eof, (unread [] s)\<lparr>IdentifierStr := IdentifierStr s @ run, NumVal := NumVal s\<rparr>)"
          if "tok = tok_eof" for ws1 body nl
          using that ne by simp
        show "gettok (unread ((ws @ c # run) @ rest') s) =
            (tok, (unread rest' s)\<lparr>IdentifierStr := IdentifierStr s @ run, NumVal := NumVal s\<rparr>)"
          if "(\<forall>ch\<in>set (take 1 rest'). \<not> alnum_char ch \<and> \<not> number_char ch) \<or>
           (rest \<noteq> [] \<and> take 1 rest' = take 1 rest)" for rest'
          using that rest by (intro g) auto
      qed
    next
      case num
      define run where "run = takeWhile number_char r"
      define rest where "rest = dropWhile number_char r"
      have r: "r = run @ rest"
        by (simp add: run_def rest_def)
      have run: "\<forall>ch\<in>set run. number_char ch"
        by (auto simp: run_def dest: set_takeWhileD)
      have rest: "\<forall>ch\<in>set (take 1 rest). \<not> number_char ch"
        unfolding rest_def by (rule take1_dropWhile)
      have g: "gettok (unread ((ws @ c # run) @ rest') s) =
          (tok_number, (unread rest' s)\<lparr>IdentifierStr := IdentifierStr s,
             NumVal := strtod (c # run)\<rparr>)"
        if "\<forall>ch\<in>set (take 1 rest'). \<not> number_char ch" for rest'
        unfolding unread_keep_IdentifierStr
        using gettok_number_run [OF ws num run that, of s] by simp
      show ?thesis
      proof (rule gettok_gapI [where tok = tok_number and pre = "ws @ c # run" and rest = rest
            and i = "IdentifierStr s" and v = "strtod (c # run)"])
        show "str = (ws @ c # run) @ rest"
          by (simp add: str Cons r)
        then show "gettok (unread str s) =
            (tok_number, (unread rest s)\<lparr>IdentifierStr := IdentifierStr s,
               NumVal := strtod (c # run)\<rparr>)"
          using g [OF rest] by simp
        show "rest = []" if "tok_number = tok_eof"
          using that by simp
        show "gettok (unread (str @ ws1 @ CHR ''#'' # body @ [nl]) s) =
            (tok_eof, (unread [] s)\<lparr>IdentifierStr := IdentifierStr s,
               NumVal := strtod (c # run)\<rparr>)"
          if "tok_number = tok_eof" for ws1 body nl
          using that by simp
        show "gettok (unread ((ws @ c # run) @ rest') s) =
            (tok_number, (unread rest' s)\<lparr>IdentifierStr := IdentifierStr s,
               NumVal := strtod (c # run)\<rparr>)"
          if "(\<forall>ch\<in>set (take 1 rest'). \<not> alnum_char ch \<and> \<not> number_char ch) \<or>
           (rest \<noteq> [] \<and> take 1 rest' = take 1 rest)" for rest'
          using that rest by (intro g) auto
      qed
    next
      case other
      have g: "gettok (unread ((ws @ [c]) @ rest') s) =
          (of_char c, (unread rest' s)\<lparr>IdentifierStr := IdentifierStr s, NumVal := NumVal s\<rparr>)"
        for rest'
        using gettok_other_char [OF ws nsp other, of rest' s] unfolding unread_same by simp
      show ?thesis
      proof (rule gettok_gapI [where tok = "of_char c" and pre = "ws @ [c]" and rest = r
            and i = "IdentifierStr s" and v = "NumVal s"])
        show "str = (ws @ [c]) @ r"
          by (simp add: str Cons)
        then show "gettok (unread str s) =
            (of_char c, (unread r s)\<lparr>IdentifierStr := IdentifierStr s, NumVal := NumVal s\<rparr>)"
          using g [of r] by simp
        show "r = []" if "of_char c = tok_eof"
          using that by simp
        show "gettok (unread (str @ ws1 @ CHR ''#'' # body @ [nl]) s) =
            (tok_eof, (unread [] s)\<lparr>IdentifierStr := IdentifierStr s, NumVal := NumVal s\<rparr>)"
          if "of_char c = tok_eof" for ws1 body nl
          using that by simp
        show "gettok (unread ((ws @ [c]) @ rest') s) =
            (of_char c, (unread rest' s)\<lparr>IdentifierStr := IdentifierStr s, NumVal := NumVal s\<rparr>)"
          for rest'
          by (rule g)
      qed
    next
      case comment
      define body0 where "body0 = takeWhile (\<lambda>ch. \<not> line_end_char ch) r"
      define aft where "aft = dropWhile (\<lambda>ch. \<not> line_end_char ch) r"
      have r: "r = body0 @ aft"
        by (simp add: body0_def aft_def)
      have body0: "\<forall>ch\<in>set body0. \<not> line_end_char ch"
        by (auto simp: body0_def dest: set_takeWhileD)
      show ?thesis
      proof (cases aft)
        case Nil
        have s0: "str = ws @ CHR ''#'' # body0"
          by (simp add: str Cons comment r Nil)
        have g: "gettok (unread str s) = (tok_eof, unread [] s)"
          unfolding s0 by (rule gettok_comment_eof [OF ws body0])
        show ?thesis
        proof (rule gettok_gapI [where tok = tok_eof and pre = str and rest = "[]"
              and i = "IdentifierStr s" and v = "NumVal s"])
          show "str = str @ []"
            by simp
          show "gettok (unread str s) =
              (tok_eof, (unread [] s)\<lparr>IdentifierStr := IdentifierStr s, NumVal := NumVal s\<rparr>)"
            unfolding unread_same by (rule g)
          show "[] = ([] :: string)"
            by simp
          show "gettok (unread (str @ ws1 @ CHR ''#'' # body @ [nl]) s) =
              (tok_eof, (unread [] s)\<lparr>IdentifierStr := IdentifierStr s, NumVal := NumVal s\<rparr>)"
            if w1: "\<forall>ch\<in>set ws1. space_char ch"
              and b: "\<forall>ch\<in>set body. \<not> line_end_char ch" and nl: "line_end_char nl"
            for ws1 body nl
          proof -
            define a where "a = takeWhile (\<lambda>ch. \<not> line_end_char ch) ws1"
            define l where "l = dropWhile (\<lambda>ch. \<not> line_end_char ch) ws1"
            have w: "ws1 = a @ l"
              by (simp add: a_def l_def)
            have a: "\<forall>ch\<in>set a. \<not> line_end_char ch"
              by (auto simp: a_def dest: set_takeWhileD)
            have "gettok (unread (ws @ CHR ''#'' # body0 @ ws1 @ CHR ''#'' # body @ [nl]) s) =
                (tok_eof, unread [] s)"
            proof (cases l)
              case Nil
              have "\<forall>ch\<in>set (body0 @ a @ CHR ''#'' # body). \<not> line_end_char ch"
                using body0 a b hash_class(4) by auto
              from gettok_skips_comment [OF ws this nl, of "[]" s]
              have "gettok (unread (ws @ CHR ''#'' # body0 @ ws1 @ CHR ''#'' # body @ [nl]) s) =
                  gettok (unread ws s)"
                by (simp add: w Nil)
              then show ?thesis
                by (simp only: gettok_end_of_input [OF ws])
            next
              case (Cons l0 l1)
              have l0: "line_end_char l0"
                using take1_dropWhile [of "\<lambda>ch. \<not> line_end_char ch" ws1]
                unfolding l_def [symmetric] Cons by simp
              have l1: "\<forall>ch\<in>set l1. space_char ch"
                using w1 by (simp add: w Cons)
              have ba: "\<forall>ch\<in>set (body0 @ a). \<not> line_end_char ch"
                using body0 a by auto
              have "gettok (unread (ws @ CHR ''#'' # (body0 @ a) @ l0 # l1 @ CHR ''#'' # body @ [nl]) s) =
                  gettok (unread (l1 @ CHR ''#'' # body @ [nl]) s)"
                by (rule gettok_past_comment [OF ws ba l0])
              also have "\<dots> = gettok (unread (l1 @ []) s)"
                using gettok_skips_comment [OF l1 b nl, of "[]" s] by simp
              also have "\<dots> = (tok_eof, unread [] s)"
                unfolding append_Nil2 by (rule gettok_end_of_input [OF l1])
              finally show ?thesis
                by (simp add: w Cons)
            qed
            then show ?thesis
              unfolding unread_same by (simp add: s0)
          qed
          show "gettok (unread (str @ rest') s) =
              (tok_eof, (unread rest' s)\<lparr>IdentifierStr := IdentifierStr s, NumVal := NumVal s\<rparr>)"
            if "tok_eof \<noteq> tok_eof" for rest'
            using that by simp
        qed
      next
        case (Cons nl0 post0)
        have nl0: "line_end_char nl0"
          using take1_dropWhile [of "\<lambda>ch. \<not> line_end_char ch" r]
          unfolding aft_def [symmetric] Cons by simp
        have t: "str = ws @ CHR ''#'' # body0 @ nl0 # post0"
          by (simp add: str \<open>rem = c # r\<close> comment r Cons)
        have skip: "gettok (unread (ws @ CHR ''#'' # body0 @ nl0 # post) s) = gettok (unread post s)"
          for post
          by (rule gettok_past_comment [OF ws body0 nl0])
        have len: "length post0 < length str"
          by (simp add: t)
        from "1.IH" [rule_format, OF len] obtain tok pre' rest i v where ihc:
          "post0 = pre' @ rest \<and>
           gettok (unread post0 s) = (tok, (unread rest s)\<lparr>IdentifierStr := i, NumVal := v\<rparr>) \<and>
           (tok = tok_eof \<longrightarrow> rest = [] \<and>
             (\<forall>ws1 body nl. (\<forall>ch\<in>set ws1. space_char ch) \<longrightarrow>
               (\<forall>ch\<in>set body. \<not> line_end_char ch) \<longrightarrow> line_end_char nl \<longrightarrow>
               gettok (unread (post0 @ ws1 @ CHR ''#'' # body @ [nl]) s) =
                 (tok_eof, (unread [] s)\<lparr>IdentifierStr := i, NumVal := v\<rparr>))) \<and>
           (tok \<noteq> tok_eof \<longrightarrow>
             (\<forall>rest'. (\<forall>ch\<in>set (take 1 rest'). \<not> alnum_char ch \<and> \<not> number_char ch) \<or>
                 (rest \<noteq> [] \<and> take 1 rest' = take 1 rest) \<longrightarrow>
               gettok (unread (pre' @ rest') s) =
                 (tok, (unread rest' s)\<lparr>IdentifierStr := i, NumVal := v\<rparr>)))"
          by blast
        note ih = ihc [THEN conjunct1] ihc [THEN conjunct2, THEN conjunct1]
          ihc [THEN conjunct2, THEN conjunct2, THEN conjunct1]
          ihc [THEN conjunct2, THEN conjunct2, THEN conjunct2]
        show ?thesis
        proof (rule gettok_gapI [where tok = tok
              and pre = "ws @ CHR ''#'' # body0 @ nl0 # pre'" and rest = rest
              and i = i and v = v])
          show "str = (ws @ CHR ''#'' # body0 @ nl0 # pre') @ rest"
            by (simp add: t ih(1))
          show "gettok (unread str s) = (tok, (unread rest s)\<lparr>IdentifierStr := i, NumVal := v\<rparr>)"
            unfolding t skip by (rule ih(2))
          show "rest = []" if "tok = tok_eof"
            using that ih(3) by blast
          show "gettok (unread (str @ ws1 @ CHR ''#'' # body @ [nl]) s) =
              (tok_eof, (unread [] s)\<lparr>IdentifierStr := i, NumVal := v\<rparr>)"
            if "tok = tok_eof" and "\<forall>ch\<in>set ws1. space_char ch"
              and "\<forall>ch\<in>set body. \<not> line_end_char ch" and "line_end_char nl"
            for ws1 body nl
          proof -
            have "gettok (unread (str @ ws1 @ CHR ''#'' # body @ [nl]) s) =
                gettok (unread (post0 @ ws1 @ CHR ''#'' # body @ [nl]) s)"
              using skip [of "post0 @ ws1 @ CHR ''#'' # body @ [nl]"] by (simp add: t)
            also have "\<dots> = (tok_eof, (unread [] s)\<lparr>IdentifierStr := i, NumVal := v\<rparr>)"
              using that ih(3) by blast
            finally show ?thesis .
          qed
          show "gettok (unread ((ws @ CHR ''#'' # body0 @ nl0 # pre') @ rest') s) =
              (tok, (unread rest' s)\<lparr>IdentifierStr := i, NumVal := v\<rparr>)"
            if "tok \<noteq> tok_eof"
              and "(\<forall>ch\<in>set (take 1 rest'). \<not> alnum_char ch \<and> \<not> number_char ch) \<or>
           (rest \<noteq> [] \<and> take 1 rest' = take 1 rest)" for rest'
          proof -
            have "gettok (unread ((ws @ CHR ''#'' # body0 @ nl0 # pre') @ rest') s) =
                gettok (unread (pre' @ rest') s)"
              using skip [of "pre' @ rest'"] by simp
            also have "\<dots> = (tok, (unread rest' s)\<lparr>IdentifierStr := i, NumVal := v\<rparr>)"
              using that ih(4) by blast
            finally show ?thesis .
          qed
        qed
      qed
    qed
  qed
qed


text \<open>
  So a comment line, with or without white space in front of it, that is put where a
  token has just ended (after any white space that follows the token) changes nothing in
  the tokens that the lexer returns, nor in the identifier text and the number value that
  come with them.
\<close>

lemma getchar_inject: "getchar a = getchar b \<Longrightarrow> a = b"
  by (cases a; cases b) (simp_all add: of_char_not_EOF of_char_not_EOF [symmetric])

lemma unread_is_unread [simp]: "unread_is txt' (unread a s) = (txt' = a)"
proof
  assume "unread_is txt' (unread a s)"
  then have "getchar txt' = getchar a"
    by (cases "getchar a") (simp add: unread_is_def unread_def)
  then show "txt' = a"
    by (rule getchar_inject)
next
  assume "txt' = a"
  then show "unread_is txt' (unread a s)"
    by (cases "getchar a") (simp add: unread_is_def unread_def)
qed

lemma unread_update:
  "(unread a s)\<lparr>IdentifierStr := i, NumVal := v\<rparr> = unread a (s\<lparr>IdentifierStr := i, NumVal := v\<rparr>)"
  by (simp add: unread_def split: prod.splits)

lemma tokens_Suc:
  "gettok s = (tok, s') \<Longrightarrow> tokens (Suc n) s = (tok, IdentifierStr s', NumVal s') # tokens n s'"
  by simp

lemma tokens_gettok_eq:
  "gettok s = gettok t \<Longrightarrow> tokens n s = tokens n t"
  by (cases n) simp_all

lemma gettok_step:
  obtains tok pre rest s1 where "str = pre @ rest"
    and "gettok (unread str s) = (tok, unread rest s1)"
    and "tok = tok_eof \<Longrightarrow> rest = []"
    and "\<And>ws1 body nl. tok = tok_eof \<Longrightarrow> \<forall>ch\<in>set ws1. space_char ch \<Longrightarrow>
       \<forall>ch\<in>set body. \<not> line_end_char ch \<Longrightarrow> line_end_char nl \<Longrightarrow>
       gettok (unread (str @ ws1 @ CHR ''#'' # body @ [nl]) s) = (tok_eof, unread [] s1)"
    and "\<And>rest'. tok \<noteq> tok_eof \<Longrightarrow>
       (\<forall>ch\<in>set (take 1 rest'). \<not> alnum_char ch \<and> \<not> number_char ch) \<or>
       (rest \<noteq> [] \<and> take 1 rest' = take 1 rest) \<Longrightarrow>
       gettok (unread (pre @ rest') s) = (tok, unread rest' s1)"
proof -
  from gettok_gap [of str s] obtain tok pre rest i v where c:
    "str = pre @ rest \<and>
     gettok (unread str s) = (tok, (unread rest s)\<lparr>IdentifierStr := i, NumVal := v\<rparr>) \<and>
     (tok = tok_eof \<longrightarrow> rest = [] \<and>
        (\<forall>ws1 body nl. (\<forall>ch\<in>set ws1. space_char ch) \<longrightarrow>
           (\<forall>ch\<in>set body. \<not> line_end_char ch) \<longrightarrow> line_end_char nl \<longrightarrow>
           gettok (unread (str @ ws1 @ CHR ''#'' # body @ [nl]) s) =
             (tok_eof, (unread [] s)\<lparr>IdentifierStr := i, NumVal := v\<rparr>))) \<and>
     (tok \<noteq> tok_eof \<longrightarrow>
        (\<forall>rest'. (\<forall>ch\<in>set (take 1 rest'). \<not> alnum_char ch \<and> \<not> number_char ch) \<or>
           (rest \<noteq> [] \<and> take 1 rest' = take 1 rest) \<longrightarrow>
           gettok (unread (pre @ rest') s) =
             (tok, (unread rest' s)\<lparr>IdentifierStr := i, NumVal := v\<rparr>)))"
    by blast
  note c1 = c [THEN conjunct1] and c2 = c [THEN conjunct2, THEN conjunct1]
    and c3 = c [THEN conjunct2, THEN conjunct2, THEN conjunct1]
    and c4 = c [THEN conjunct2, THEN conjunct2, THEN conjunct2]
  show ?thesis
  proof (rule that [of pre rest tok "s\<lparr>IdentifierStr := i, NumVal := v\<rparr>"])
    show "str = pre @ rest"
      by (rule c1)
    show "gettok (unread str s) = (tok, unread rest (s\<lparr>IdentifierStr := i, NumVal := v\<rparr>))"
      using c2 by (simp only: unread_update)
    show "rest = []" if "tok = tok_eof"
      using that c3 by blast
    show "gettok (unread (str @ ws1 @ CHR ''#'' # body @ [nl]) s) =
        (tok_eof, unread [] (s\<lparr>IdentifierStr := i, NumVal := v\<rparr>))"
      if "tok = tok_eof" and "\<forall>ch\<in>set ws1. space_char ch"
        and "\<forall>ch\<in>set body. \<not> line_end_char ch" and "line_end_char nl" for ws1 body nl
      using that c3 unfolding unread_update by blast
    show "gettok (unread (pre @ rest') s) = (tok, unread rest' (s\<lparr>IdentifierStr := i, NumVal := v\<rparr>))"
      if "tok \<noteq> tok_eof"
        and "(\<forall>ch\<in>set (take 1 rest'). \<not> alnum_char ch \<and> \<not> number_char ch) \<or>
          (rest \<noteq> [] \<and> take 1 rest' = take 1 rest)" for rest'
      using that c4 unfolding unread_update by blast
  qed
qed

lemma lex_steps_suffix:
  "unread_is t (lex_steps k (unread str s)) \<Longrightarrow> \<exists>r. str = r @ t"
proof (induction k arbitrary: str s)
  case 0
  then show ?case by simp
next
  case (Suc k)
  obtain tok pre rest s1 where g: "str = pre @ rest" "gettok (unread str s) = (tok, unread rest s1)"
    by (rule gettok_step [of str s])
  from Suc.prems have "unread_is t (lex_steps k (unread rest s1))"
    by (simp add: g(2))
  from Suc.IH [OF this] obtain r where "rest = r @ t" ..
  then have "str = (pre @ r) @ t"
    by (simp add: g(1))
  then show ?case ..
qed

lemma take1_append_same:
  "ys \<noteq> [] \<Longrightarrow> take 1 (ys @ a) = take 1 (ys @ b)"
  by (cases ys) simp_all

lemma space_class:
  "space_char c \<Longrightarrow> \<not> alnum_char c \<and> \<not> number_char c"
  by (auto simp: space_char_def alnum_char_def number_char_def isspace_def isalnum_def
      isalpha_def isdigit_def)

lemma tokens_comment:
  assumes ws0: "\<forall>ch\<in>set ws0. space_char ch" and ws1: "\<forall>ch\<in>set ws1. space_char ch"
    and body: "\<forall>ch\<in>set body. \<not> line_end_char ch" and nl: "line_end_char nl"
  shows "unread_is (ws0 @ post) (lex_steps k (unread (pre @ ws0 @ post) s)) \<Longrightarrow>
    tokens n (unread (pre @ ws0 @ ws1 @ CHR ''#'' # body @ nl # post) s) =
    tokens n (unread (pre @ ws0 @ post) s)"
proof (induction k arbitrary: pre s n)
  case 0
  then have pre: "pre = []"
    by simp
  have w: "\<forall>ch\<in>set (ws0 @ ws1). space_char ch"
    using ws0 ws1 by auto
  have "gettok (unread ((ws0 @ ws1) @ CHR ''#'' # body @ nl # post) s) = gettok (unread post s)"
    by (rule gettok_past_comment [OF w body nl])
  also have "\<dots> = gettok (unread (ws0 @ post) s)"
    by (rule gettok_skips_whitespace [OF ws0, symmetric])
  finally show ?case
    unfolding pre append_Nil append_assoc by (rule tokens_gettok_eq)
next
  case (Suc k)
  show ?case
  proof (cases n)
    case 0
    then show ?thesis by simp
  next
    case n: (Suc m)
    obtain tok p1 rest s1 where g: "pre @ ws0 @ post = p1 @ rest"
      "gettok (unread (pre @ ws0 @ post) s) = (tok, unread rest s1)"
      "tok = tok_eof \<Longrightarrow> rest = []"
      "\<And>ws1 body nl. tok = tok_eof \<Longrightarrow> \<forall>ch\<in>set ws1. space_char ch \<Longrightarrow>
         \<forall>ch\<in>set body. \<not> line_end_char ch \<Longrightarrow> line_end_char nl \<Longrightarrow>
         gettok (unread ((pre @ ws0 @ post) @ ws1 @ CHR ''#'' # body @ [nl]) s) =
           (tok_eof, unread [] s1)"
      "\<And>rest'. tok \<noteq> tok_eof \<Longrightarrow>
         (\<forall>ch\<in>set (take 1 rest'). \<not> alnum_char ch \<and> \<not> number_char ch) \<or>
         (rest \<noteq> [] \<and> take 1 rest' = take 1 rest) \<Longrightarrow>
         gettok (unread (p1 @ rest') s) = (tok, unread rest' s1)"
      by (rule gettok_step [of "pre @ ws0 @ post" s]) (rule that, assumption+)
    from Suc.prems have h: "unread_is (ws0 @ post) (lex_steps k (unread rest s1))"
      by (simp add: g(2))
    from lex_steps_suffix [OF h] obtain r where r: "rest = r @ ws0 @ post" ..
    with g(1) have pre: "pre = p1 @ r"
      by simp
    show ?thesis
    proof (cases "tok = tok_eof")
      case True
      with g(3) r have e: "r = []" "ws0 = []" "post = []"
        by simp_all
      have "gettok (unread (pre @ ws0 @ ws1 @ CHR ''#'' # body @ nl # post) s) =
          (tok_eof, unread [] s1)"
        using g(4) [OF True ws1 body nl] by (simp add: e)
      moreover have "gettok (unread (pre @ ws0 @ post) s) = (tok_eof, unread [] s1)"
        using g(2) True r e by simp
      ultimately have "gettok (unread (pre @ ws0 @ ws1 @ CHR ''#'' # body @ nl # post) s) =
          gettok (unread (pre @ ws0 @ post) s)"
        by simp
      then show ?thesis
        by (rule tokens_gettok_eq)
    next
      case False
      let ?ins = "ws1 @ CHR ''#'' # body @ nl # post"
      have like: "(\<forall>ch\<in>set (take 1 (r @ ws0 @ ?ins)). \<not> alnum_char ch \<and> \<not> number_char ch) \<or>
          (rest \<noteq> [] \<and> take 1 (r @ ws0 @ ?ins) = take 1 rest)"
      proof (cases "r @ ws0 = []")
        case True
        have "\<forall>ch\<in>set (take 1 ?ins). \<not> alnum_char ch \<and> \<not> number_char ch"
          using ws1 space_class hash_class(1,2) by (cases ws1) auto
        then show ?thesis
          using True by simp
      next
        case False
        have "take 1 ((r @ ws0) @ ?ins) = take 1 ((r @ ws0) @ post)"
          by (rule take1_append_same [OF False])
        then have "take 1 (r @ ws0 @ ?ins) = take 1 rest"
          unfolding r append_assoc .
        moreover have "rest \<noteq> []"
          using False unfolding r by auto
        ultimately show ?thesis
          by blast
      qed
      have c: "gettok (unread (pre @ ws0 @ ?ins) s) = (tok, unread (r @ ws0 @ ?ins) s1)"
        using g(5) [OF False like] by (simp add: pre)
      have p: "gettok (unread (pre @ ws0 @ post) s) = (tok, unread (r @ ws0 @ post) s1)"
        using g(2) by (simp add: r)
      have "tokens m (unread (r @ ws0 @ ?ins) s1) = tokens m (unread (r @ ws0 @ post) s1)"
        using h by (intro Suc.IH) (simp add: r)
      then show ?thesis
        unfolding n tokens_Suc [OF c] tokens_Suc [OF p] by simp
    qed
  qed
qed


text \<open>
  The parse functions read the lexer state only through \<open>gettok\<close>. From two states that
  agree on everything else and from which the lexer returns the same tokens, every parse
  function returns the same result, with any fuel.
\<close>

lemma same_result_simps [simp]:
  "same_result None None"
  "same_result (Some (r, s)) (Some (r', t)) = (r = r' \<and> same_lexing s t)"
  "same_result (Some a) (Some b) = (fst a = fst b \<and> same_lexing (snd a) (snd b))"
  by (simp_all add: same_result_def split: prod.splits)

lemma same_resultE:
  assumes "same_result x y"
  obtains (none) "x = None" "y = None"
  | (some) r s t where "x = Some (r, s)" "y = Some (r, t)" "same_lexing s t"
  using assms by (auto simp: same_result_def split: option.splits prod.splits)

lemma same_lexing_fields:
  assumes "same_lexing s t"
  shows "CurTok s = CurTok t" "IdentifierStr s = IdentifierStr t" "NumVal s = NumVal t"
    "Stderr s = Stderr t" "BinopPrecedence s = BinopPrecedence t"
  using assms by (simp_all add: same_lexing_def)

lemma gettok_keeps:
  "Stderr (snd (gettok s)) = Stderr s" "BinopPrecedence (snd (gettok s)) = BinopPrecedence s"
  "CurTok (snd (gettok s)) = CurTok s"
proof -
  from gettok_frame [of s] obtain c idstr nv inp where
    "snd (gettok s) = s\<lparr>LastChar := c, IdentifierStr := idstr, NumVal := nv, Input := inp\<rparr>"
    by blast
  then show "Stderr (snd (gettok s)) = Stderr s"
    "BinopPrecedence (snd (gettok s)) = BinopPrecedence s" "CurTok (snd (gettok s)) = CurTok s"
    by simp_all
qed

lemma same_lexing_getNextToken:
  assumes "same_lexing s t"
  shows "same_lexing (getNextToken s) (getNextToken t)"
proof -
  obtain a s' where gs: "gettok s = (a, s')"
    by (cases "gettok s")
  obtain b t' where gt: "gettok t = (b, t')"
    by (cases "gettok t")
  have tk: "tokens n s = tokens n t" for n
    using assms by (simp add: same_lexing_def)
  have e: "a = b" "IdentifierStr s' = IdentifierStr t'" "NumVal s' = NumVal t'"
    and tk': "tokens n s' = tokens n t'" for n
    using tk [of "Suc n"] by (simp_all add: gs gt)
  have k: "Stderr s' = Stderr s" "BinopPrecedence s' = BinopPrecedence s"
    "Stderr t' = Stderr t" "BinopPrecedence t' = BinopPrecedence t"
    using gettok_keeps [of s] gettok_keeps [of t] by (simp_all add: gs gt)
  have c: "tokens n (x\<lparr>CurTok := v\<rparr>) = tokens n x" for n v and x :: state
    by (rule tokens_same_fields) simp_all
  show ?thesis
    using assms e k tk' by (simp add: same_lexing_def getNextToken_def gs gt c)
qed

lemma same_lexing_table:
  assumes "same_lexing s t"
  shows "same_lexing (s\<lparr>BinopPrecedence := b\<rparr>) (t\<lparr>BinopPrecedence := b\<rparr>)"
proof -
  have c: "tokens n (x\<lparr>BinopPrecedence := v\<rparr>) = tokens n x" for n v and x :: state
    by (rule tokens_same_fields) simp_all
  show ?thesis
    using assms by (simp add: same_lexing_def c)
qed

lemma same_lexing_Stderr:
  assumes "same_lexing s t"
  shows "same_lexing (s\<lparr>Stderr := Stderr s @ m\<rparr>) (t\<lparr>Stderr := Stderr t @ m\<rparr>)"
proof -
  have c: "tokens n (x\<lparr>Stderr := e\<rparr>) = tokens n x" for n e and x :: state
    by (rule tokens_same_fields) simp_all
  show ?thesis
    using assms by (simp add: same_lexing_def c)
qed

lemma same_lexing_GetTokPrecedence:
  assumes "same_lexing s t"
  shows "fst (GetTokPrecedence s) = fst (GetTokPrecedence t)"
    and "same_lexing (snd (GetTokPrecedence s)) (snd (GetTokPrecedence t))"
  using assms same_lexing_table [OF assms] same_lexing_fields [OF assms]
  by (simp_all add: GetTokPrecedence_def Let_def split: option.splits)

lemma same_lexing_LogError:
  assumes "same_lexing s t"
  shows "same_result (Some (LogError m s)) (Some (LogError m t))"
  using same_lexing_Stderr [OF assms] by (simp add: LogError_def)

lemma same_lexing_parse:
  shows "same_lexing s t \<Longrightarrow> same_result (ParsePrimary n s) (ParsePrimary n t)"
    and "same_lexing s t \<Longrightarrow> same_result (ParseParenExpr n s) (ParseParenExpr n t)"
    and "same_lexing s t \<Longrightarrow> same_result (ParseIdentifierExpr n s) (ParseIdentifierExpr n t)"
    and "same_lexing s t \<Longrightarrow> same_result (ParseArgs n Args s) (ParseArgs n Args t)"
    and "same_lexing s t \<Longrightarrow> same_result (ParseExpression n s) (ParseExpression n t)"
    and "same_lexing s t \<Longrightarrow> same_result (ParseBinOpRHS n p L s) (ParseBinOpRHS n p L t)"
proof (induction n arbitrary: s t Args p L)
  case 0
  {
    case 1 show ?case by simp
  next
    case 2 show ?case by simp
  next
    case 3 show ?case by simp
  next
    case 4 show ?case by simp
  next
    case 5 show ?case by simp
  next
    case 6 show ?case by simp
  }
next
  case (Suc n)
  {
    case 1
    note f = same_lexing_fields [OF 1]
    show ?case
      using Suc.IH(2,3) [OF 1] same_lexing_LogError [OF 1] same_lexing_getNextToken [OF 1]
      by (simp add: f ParseNumberExpr_def)
  next
    case 2
    from Suc.IH(5) [OF same_lexing_getNextToken [OF 2]] show ?case
    proof (cases rule: same_resultE)
      case none
      then show ?thesis by simp
    next
      case (some r s1 t1)
      note f = same_lexing_fields [OF some(3)]
      show ?thesis
        using some same_lexing_LogError [OF some(3)] same_lexing_getNextToken [OF some(3)]
        by (cases r) (simp_all add: f)
    qed
  next
    case 3
    note f = same_lexing_fields [OF 3]
    note sl1 = same_lexing_getNextToken [OF 3]
    note f1 = same_lexing_fields [OF sl1]
    note sl2 = same_lexing_getNextToken [OF sl1]
    note f2 = same_lexing_fields [OF sl2]
    show ?case
    proof (cases "CurTok (getNextToken t) \<noteq> of_char CHR ''(''")
      case True
      then show ?thesis
        using sl1 by (simp add: f f1 Let_def)
    next
      case paren: False
      show ?thesis
      proof (cases "CurTok (getNextToken (getNextToken t)) \<noteq> of_char CHR '')''")
        case False
        then show ?thesis
          using paren same_lexing_getNextToken [OF sl2] by (simp add: f f1 f2 Let_def)
      next
        case True
        from Suc.IH(4) [OF sl2, of "[]"] show ?thesis
        proof (cases rule: same_resultE)
          case none
          then show ?thesis
            using paren True by (simp add: f f1 f2 Let_def)
        next
          case (some r s3 t3)
          then show ?thesis
            using paren True same_lexing_getNextToken [OF some(3)]
            by (cases r) (simp_all add: f f1 f2 Let_def)
        qed
      qed
    qed
  next
    case 4
    from Suc.IH(5) [OF 4] show ?case
    proof (cases rule: same_resultE)
      case none
      then show ?thesis by simp
    next
      case (some r s1 t1)
      note f = same_lexing_fields [OF some(3)]
      show ?thesis
      proof (cases r)
        case None
        then show ?thesis
          using some by simp
      next
        case (Some Arg1)
        show ?thesis
          using some Some same_lexing_LogError [OF some(3), of Expected_rparen_or_comma]
            Suc.IH(4) [OF same_lexing_getNextToken [OF some(3)], of "Args @ [Arg1]"]
          by (simp add: f)
      qed
    qed
  next
    case 5
    from Suc.IH(1) [OF 5] show ?case
    proof (cases rule: same_resultE)
      case none
      then show ?thesis by simp
    next
      case (some r s1 t1)
      then show ?thesis
        using Suc.IH(6) [OF some(3)] by (cases r) simp_all
    qed
  next
    case 6
    obtain tp s1 where gs: "GetTokPrecedence s = (tp, s1)"
      by (cases "GetTokPrecedence s")
    obtain tp' t1 where gt: "GetTokPrecedence t = (tp', t1)"
      by (cases "GetTokPrecedence t")
    have tp: "tp' = tp" and sl1: "same_lexing s1 t1"
      using same_lexing_GetTokPrecedence [OF 6] by (simp_all add: gs gt)
    note f1 = same_lexing_fields [OF sl1]
    show ?case
    proof (cases "tp < p")
      case True
      then show ?thesis
        using sl1 by (simp add: gs gt tp)
    next
      case False
      from Suc.IH(1) [OF same_lexing_getNextToken [OF sl1]] show ?thesis
      proof (cases rule: same_resultE)
        case none
        then show ?thesis
          using False by (simp add: gs gt tp)
      next
        case (some r s2 t2)
        show ?thesis
        proof (cases r)
          case None
          then show ?thesis
            using some False by (simp add: gs gt tp)
        next
          case (Some RHS)
          obtain np s3 where gs2: "GetTokPrecedence s2 = (np, s3)"
            by (cases "GetTokPrecedence s2")
          obtain np' t3 where gt2: "GetTokPrecedence t2 = (np', t3)"
            by (cases "GetTokPrecedence t2")
          have sl3: "same_lexing s3 t3"
            using same_lexing_GetTokPrecedence(2) [OF some(3)] by (simp add: gs2 gt2)
          show ?thesis
            using some Some False Suc.IH(6) [OF sl3]
            by (simp add: gs gt tp gs2 gt2 f1)
        qed
      qed
    qed
  }
qed

lemma same_lexing_unread:
  assumes "\<And>n. tokens n (unread a s) = tokens n (unread b s)"
  shows "same_lexing (unread a s) (unread b s)"
  using assms by (simp add: same_lexing_def)

lemma same_result_fst:
  assumes "same_result x y"
  shows "map_option (\<lambda>(r, s'). (r, Stderr s')) x = map_option (\<lambda>(r, s'). (r, Stderr s')) y"
  using assms
  by (cases rule: same_resultE) (simp_all add: same_lexing_fields(4))


text \<open>
  Claim C8. Comments are transparent to the parser. Take any state of the statics and any
  text in front of the lexer, and a place in the text where the lexer, after some number
  \<open>k\<close> of tokens (none, for the start of the text), has just ended a token, followed by
  any white space \<open>ws0\<close>. Put there a comment: optional white space \<open>ws1\<close>, a \<^verbatim>\<open>#\<close>, a body
  without newline and carriage return, and the newline or carriage return that ends it.
  Then, for every \<open>n\<close>, the first \<open>n\<close> calls of \<open>gettok\<close> return the same tokens with the
  same identifier texts and number values as without the comment, and for every amount
  of fuel \<open>ParseExpression\<close> returns the same tree (or the same null pointer) and has
  printed the same messages. In particular \<^verbatim>\<open>1 # ignore me\<close>, newline, \<^verbatim>\<open>+2\<close> parses to the
  tree of \<^verbatim>\<open>1+2\<close>.
\<close>

theorem comment_transparent:
  assumes "\<forall>ch\<in>set ws0. space_char ch" and "\<forall>ch\<in>set ws1. space_char ch"
    and "\<forall>ch\<in>set body. \<not> line_end_char ch" and "line_end_char nl"
    and "unread_is (ws0 @ post) (lex_steps k (unread (pre @ ws0 @ post) s))"
  shows "tokens n (unread (pre @ ws0 @ ws1 @ CHR ''#'' # body @ nl # post) s) =
       tokens n (unread (pre @ ws0 @ post) s) \<and>
     map_option (\<lambda>(r, s'). (r, Stderr s'))
       (ParseExpression m
         (getNextToken (unread (pre @ ws0 @ ws1 @ CHR ''#'' # body @ nl # post) s))) =
     map_option (\<lambda>(r, s'). (r, Stderr s'))
       (ParseExpression m (getNextToken (unread (pre @ ws0 @ post) s)))"
proof
  note t = tokens_comment [OF assms]
  show "tokens n (unread (pre @ ws0 @ ws1 @ CHR ''#'' # body @ nl # post) s) =
      tokens n (unread (pre @ ws0 @ post) s)"
    by (rule t)
  have "same_lexing (unread (pre @ ws0 @ ws1 @ CHR ''#'' # body @ nl # post) s)
      (unread (pre @ ws0 @ post) s)"
    by (rule same_lexing_unread) (rule t)
  then have "same_result
      (ParseExpression m
        (getNextToken (unread (pre @ ws0 @ ws1 @ CHR ''#'' # body @ nl # post) s)))
      (ParseExpression m (getNextToken (unread (pre @ ws0 @ post) s)))"
    by (intro same_lexing_parse(5) same_lexing_getNextToken)
  then show "map_option (\<lambda>(r, s'). (r, Stderr s'))
       (ParseExpression m
         (getNextToken (unread (pre @ ws0 @ ws1 @ CHR ''#'' # body @ nl # post) s))) =
     map_option (\<lambda>(r, s'). (r, Stderr s'))
       (ParseExpression m (getNextToken (unread (pre @ ws0 @ post) s)))"
    by (rule same_result_fst)
qed

theorem comment_transparent_witness:
  "tokens 4 (main (start (''1 # ignore me'' @ CHR 0x0A # ''+2''))) = tokens 4 (main (start ''1+2'')) \<and>
   map_option (\<lambda>(r, s'). (r, Stderr s'))
     (parse_expression_of 3 (''1 # ignore me'' @ CHR 0x0A # ''+2'')) =
   map_option (\<lambda>(r, s'). (r, Stderr s')) (parse_expression_of 3 ''1+2'') \<and>
   map_option (\<lambda>(r, s'). (r, Stderr s')) (parse_expression_of 3 ''1+2'') =
     Some (Some (BinaryExprAST CHR ''+'' (NumberExprAST 1) (NumberExprAST 2)), [])"
proof -
  have h: "unread_is ([] @ ''+2'') (lex_steps 1 (unread ('' 1'' @ [] @ ''+2'') (main (start []))))"
    by code_simp
  have w: "\<forall>ch\<in>set []. space_char ch" "\<forall>ch\<in>set '' ''. space_char ch"
    "\<forall>ch\<in>set '' ignore me''. \<not> line_end_char ch" "line_end_char (CHR 0x0A)"
    by (simp_all add: space_char_def isspace_def line_end_char_def)
  have a: "main (start (''1 # ignore me'' @ CHR 0x0A # ''+2'')) =
      unread ('' 1'' @ [] @ '' '' @ CHR ''#'' # '' ignore me'' @ CHR 0x0A # ''+2'') (main (start []))"
    unfolding main_start [of "''1 # ignore me'' @ CHR 0x0A # ''+2''"] by simp
  have b: "main (start ''1+2'') = unread ('' 1'' @ [] @ ''+2'') (main (start []))"
    unfolding main_start [of "''1+2''"] by simp
  have r: "map_option (\<lambda>(r, s'). (r, Stderr s')) (parse_expression_of 3 ''1+2'') =
     Some (Some (BinaryExprAST CHR ''+'' (NumberExprAST 1) (NumberExprAST 2)), [])"
    by code_simp
  show ?thesis
    unfolding parse_expression_of_def a b
    using comment_transparent [OF w h, of 4 3] r [unfolded parse_expression_of_def b]
    by blast
qed

end
